theory Spec2Isabelle
  imports Main "HOL-Library.Monad_Syntax" "HOL-Library.List_Lexorder" "HOL-Library.Char_ord"
begin

section \<open>The dependency graph read by \<open>fromager/commands/graph.py\<close>\<close>

text \<open>
  The commands of \<open>graph.py\<close> are translated from their source. The module
  \<open>fromager.dependency_graph\<close> (the classes \<open>DependencyGraph\<close> and
  \<open>DependencyNode\<close>, the edge class and the constant \<open>ROOT\<close>) and the enum
  \<open>RequirementType\<close>, which \<open>graph.py\<close> imports, are modelled from the data model
  of the specification.
\<close>

type_synonym key = string

text \<open>Modelled from the spec: the constant \<open>ROOT\<close> of \<open>fromager.dependency_graph\<close>, the
  reserved key of the virtual root. \<open>migrate_graph\<close> splits a key at \<open>==\<close> and takes an
  empty name for the root, so the key is the empty string.\<close>

definition ROOT :: key where
  "ROOT = []"

text \<open>Modelled from the spec: the enum \<open>RequirementType\<close> of
  \<open>fromager.requirements_file\<close>, one of install, build, build-system, build-backend,
  toplevel.\<close>

datatype RequirementType = INSTALL | BUILD | BUILD_SYSTEM | BUILD_BACKEND | TOP_LEVEL

text \<open>
  The enum is not in \<open>graph.py\<close>, and neither is the equality it gives its members.
  \<open>graph.py\<close> compares requirement types with \<open>==\<close> and with \<open>in\<close>; the functions
  below take that equality as the parameter \<open>eq\<close>, so what is proved of them holds
  whatever the enum's equality is. \<open>x in xs\<close> on a list or tuple holds when some item
  of \<open>xs\<close> is \<open>x\<close> itself or equals \<open>x\<close>.
\<close>

definition type_in ::
    "(RequirementType \<Rightarrow> RequirementType \<Rightarrow> bool) \<Rightarrow> RequirementType \<Rightarrow> RequirementType list \<Rightarrow> bool"
where
  "type_in eq x xs = list_ex (\<lambda>item. item = x \<or> eq item x) xs"

text \<open>
  Modelled from the spec: the equality of \<open>RequirementType\<close>. The specification speaks
  of build-type edges, the requirements needed only to build a package; under
  \<open>build_matches\<close> the type \<open>build\<close> stands for each of them: \<open>build\<close> equals
  \<open>build-system\<close> and \<open>build-backend\<close>, and otherwise a type equals only itself. The
  examples are computed with it.
\<close>

definition build_matches :: "RequirementType \<Rightarrow> RequirementType \<Rightarrow> bool" where
  "build_matches a b =
     (a = b \<or>
      (a = BUILD \<and> (b = BUILD_SYSTEM \<or> b = BUILD_BACKEND)) \<or>
      (b = BUILD \<and> (a = BUILD_SYSTEM \<or> a = BUILD_BACKEND)))"

text \<open>A \<open>packaging\<close> version of a final release is its release segment, \<open>1.5\<close> being
  \<open>[1, 5]\<close>. The library compares versions on the release without its trailing zeros.\<close>

type_synonym Version = "nat list"

definition version_key :: "Version \<Rightarrow> nat list" where
  "version_key v = rev (dropWhile (\<lambda>n. n = 0) (rev v))"

text \<open>
  Modelled from the spec: the edge and node classes of \<open>fromager.dependency_graph\<close>,
  with the fields of the data model. A node object is referred to by its key: an edge
  stores the key of its \<open>destination_node\<close>, which on an edge in \<open>parents\<close> is the
  requiring node, and \<open>node_of\<close> reads the object behind a key. Reading
  \<open>e.destination_node.key\<close> is therefore \<open>destination_node e\<close>. The root has neither
  name nor version; its node holds the empty name and the empty version. The type \<open>'r\<close>
  is the \<open>Requirement\<close> class of the \<open>packaging\<close> library.
\<close>

record 'r Edge =
  req :: 'r
  req_type :: RequirementType
  destination_node :: key

record 'r DependencyNode =
  canonicalized_name :: string
  version :: Version
  children :: "'r Edge list"
  parents :: "'r Edge list"

text \<open>Modelled from the spec: the class \<open>DependencyGraph\<close>, a dictionary from key to node.
  \<open>nodes\<close> lists its keys in insertion order.\<close>

record 'r DependencyGraph =
  nodes :: "key list"
  node_of :: "key \<Rightarrow> 'r DependencyNode"

text \<open>Modelled from the spec: \<open>DependencyGraph.get_nodes_by_name\<close>, all nodes whose
  canonicalized name matches, across all versions, in a stable iteration order.\<close>

definition get_nodes_by_name :: "'r DependencyGraph \<Rightarrow> string \<Rightarrow> key list" where
  "get_nodes_by_name graph name =
     filter (\<lambda>k. canonicalized_name (node_of graph k) = name) (nodes graph)"

section \<open>\<open>why\<close> and \<open>find_why\<close>\<close>

text \<open>
  What the two functions print, one value per \<open>print\<close> call:
  \<^item> \<open>NodeHeader k\<close>: the line of \<open>why\<close> naming the node, \<open>\n{node.key}\<close>;
  \<^item> \<open>IsToplevel k\<close>: \<open>* {node.key} is a toplevel dependency\<close>;
  \<^item> \<open>IsDependencyOf depth t p r\<close>: indented by \<open>depth\<close>,
    \<open>* is an {t} dependency of {p} with req {r}\<close>;
  \<^item> \<open>NotFound n ts\<close>: \<open>* couldn't find any dependencies to {n} that matches {ts}\<close>.
\<close>

datatype 'r line =
    NodeHeader key
  | IsToplevel key
  | IsDependencyOf int RequirementType key 'r
  | NotFound string "RequirementType list"

text \<open>
  \<open>find_why\<close> calls itself on the parents of a node, and nothing in it stops on a node
  it has seen. The argument \<open>fuel\<close> bounds the nesting of calls; \<open>None\<close> is a run that
  needs more. \<open>find_why_parents\<close> is the \<open>for parent in node.parents\<close> loop, with the
  two flags \<open>all_skipped\<close> and \<open>is_toplevel\<close> as loop state; it returns the lines printed
  and the final flags.
\<close>

fun find_why ::
    "(RequirementType \<Rightarrow> RequirementType \<Rightarrow> bool) \<Rightarrow> nat \<Rightarrow> 'r DependencyGraph \<Rightarrow> key \<Rightarrow> int \<Rightarrow> int \<Rightarrow>
     RequirementType list \<Rightarrow> 'r line list option"
  and find_why_parents ::
    "(RequirementType \<Rightarrow> RequirementType \<Rightarrow> bool) \<Rightarrow> nat \<Rightarrow> 'r DependencyGraph \<Rightarrow> key \<Rightarrow> int \<Rightarrow> int \<Rightarrow>
     RequirementType list \<Rightarrow> 'r Edge list \<Rightarrow> bool \<Rightarrow> bool \<Rightarrow> ('r line list \<times> bool \<times> bool) option"
where
  "find_why eq 0 graph node max_depth depth rt = None"
| "find_why eq (Suc fuel) graph node max_depth depth rt =
     do {
       (out, all_skipped, is_toplevel) \<leftarrow>
         find_why_parents eq fuel graph node max_depth depth rt
           (parents (node_of graph node)) True False;
       Some (out @
         (if all_skipped \<and> \<not> is_toplevel
          then [NotFound (canonicalized_name (node_of graph node)) rt] else []))
     }"
| "find_why_parents eq fuel graph node max_depth depth rt [] all_skipped is_toplevel =
     Some ([], all_skipped, is_toplevel)"
| "find_why_parents eq fuel graph node max_depth depth rt (parent # rest) all_skipped is_toplevel =
     (if destination_node parent = ROOT then
        do {
          (out, flags) \<leftarrow>
            find_why_parents eq fuel graph node max_depth depth rt rest all_skipped True;
          Some (IsToplevel node # out, flags)
        }
      else if rt \<noteq> [] \<and> \<not> type_in eq (req_type parent) rt then
        find_why_parents eq fuel graph node max_depth depth rt rest all_skipped is_toplevel
      else
        do {
          ancestors \<leftarrow>
            (if max_depth \<noteq> 0 \<and> (max_depth = - 1 \<or> depth \<le> max_depth)
             then find_why eq fuel graph (destination_node parent) max_depth (depth + 1) []
             else Some []);
          (out, flags) \<leftarrow>
            find_why_parents eq fuel graph node max_depth depth rt rest False is_toplevel;
          Some (IsDependencyOf depth (req_type parent) (destination_node parent) (req parent)
                  # ancestors @ out, flags)
        })"

text \<open>The loop of \<open>why\<close> over the selected nodes.\<close>

fun why_nodes ::
    "(RequirementType \<Rightarrow> RequirementType \<Rightarrow> bool) \<Rightarrow> nat \<Rightarrow> 'r DependencyGraph \<Rightarrow> key list \<Rightarrow> int \<Rightarrow>
     RequirementType list \<Rightarrow> 'r line list option"
where
  "why_nodes eq fuel graph [] depth requirement_type = Some []"
| "why_nodes eq fuel graph (node # rest) depth requirement_type =
     do {
       out \<leftarrow> find_why eq fuel graph node depth 1 requirement_type;
       others \<leftarrow> why_nodes eq fuel graph rest depth requirement_type;
       Some (NodeHeader node # out @ others)
     }"

text \<open>\<open>node.version in version\<close> compares with the equality of \<open>Version\<close>.\<close>

definition why ::
    "(RequirementType \<Rightarrow> RequirementType \<Rightarrow> bool) \<Rightarrow> nat \<Rightarrow> 'r DependencyGraph \<Rightarrow> string \<Rightarrow> Version list \<Rightarrow>
     int \<Rightarrow> RequirementType list \<Rightarrow> 'r line list option"
where
  "why eq fuel graph package_name versions depth requirement_type =
     (let package_nodes = get_nodes_by_name graph package_name;
          package_nodes =
            (if versions \<noteq> [] then
               filter (\<lambda>k. version_key (version (node_of graph k)) \<in> version_key ` set versions)
                 package_nodes
             else package_nodes)
      in why_nodes eq fuel graph package_nodes depth requirement_type)"

text \<open>
  The report for one incoming edge as the specification words it (section 4.3): a parent
  that is \<open>ROOT\<close> gives the top-level line and nothing above it; an edge whose type the
  filter excludes gives nothing; any other edge gives its line and, if the depth budget
  allows, the report of that parent with the filter cleared. An edge survives when its
  parent is not \<open>ROOT\<close> and the filter is empty or holds its type.
\<close>

definition survives ::
    "(RequirementType \<Rightarrow> RequirementType \<Rightarrow> bool) \<Rightarrow> RequirementType list \<Rightarrow> 'r Edge \<Rightarrow> bool" where
  "survives eq rt e = (destination_node e \<noteq> ROOT \<and> (rt = [] \<or> type_in eq (req_type e) rt))"

definition explain_parent ::
    "(RequirementType \<Rightarrow> RequirementType \<Rightarrow> bool) \<Rightarrow> nat \<Rightarrow> 'r DependencyGraph \<Rightarrow> key \<Rightarrow> int \<Rightarrow> int \<Rightarrow>
     RequirementType list \<Rightarrow> 'r Edge \<Rightarrow> 'r line list option"
where
  "explain_parent eq fuel graph node max_depth depth rt e =
     (if destination_node e = ROOT then Some [IsToplevel node]
      else if rt \<noteq> [] \<and> \<not> type_in eq (req_type e) rt then Some []
      else map_option (Cons (IsDependencyOf depth (req_type e) (destination_node e) (req e)))
             (if max_depth \<noteq> 0 \<and> (max_depth = - 1 \<or> depth \<le> max_depth)
              then find_why eq fuel graph (destination_node e) max_depth (depth + 1) []
              else Some []))"

subsection \<open>Two small graphs\<close>

text \<open>
  \<open>small_graph\<close>: \<open>ROOT\<close> asks for \<open>a==1\<close>; \<open>a==1\<close> needs \<open>b==2\<close> to run and
  \<open>c==3\<close> to build; \<open>c==3\<close> names \<open>b==2\<close> in its build system. Requirements are kept
  as their text.
\<close>

definition an_edge :: "'r \<Rightarrow> RequirementType \<Rightarrow> key \<Rightarrow> 'r Edge" where
  "an_edge r t k = \<lparr>req = r, req_type = t, destination_node = k\<rparr>"

definition a_node :: "string \<Rightarrow> Version \<Rightarrow> 'r Edge list \<Rightarrow> 'r Edge list \<Rightarrow> 'r DependencyNode" where
  "a_node n v cs ps = \<lparr>canonicalized_name = n, version = v, children = cs, parents = ps\<rparr>"

definition small_graph :: "string DependencyGraph" where
  "small_graph =
     \<lparr>nodes = [ROOT, ''a==1'', ''b==2'', ''c==3''],
      node_of = (\<lambda>k.
        if k = ''a==1'' then
          a_node ''a'' [1]
            [an_edge ''b>=2'' INSTALL ''b==2'', an_edge ''c'' BUILD ''c==3'']
            [an_edge ''a'' TOP_LEVEL ROOT]
        else if k = ''b==2'' then
          a_node ''b'' [2] []
            [an_edge ''b>=2'' INSTALL ''a==1'', an_edge ''b'' BUILD_SYSTEM ''c==3'']
        else if k = ''c==3'' then
          a_node ''c'' [3]
            [an_edge ''b'' BUILD_SYSTEM ''b==2'']
            [an_edge ''c'' BUILD ''a==1'']
        else
          a_node [] [] [an_edge ''a'' TOP_LEVEL ''a==1''] [])\<rparr>"

text \<open>\<open>cyclic_graph\<close>: \<open>ROOT\<close> asks for \<open>a==1\<close>, \<open>a==1\<close> needs \<open>b==1\<close> and \<open>b==1\<close>
  needs \<open>a==1\<close>.\<close>

definition cyclic_graph :: "string DependencyGraph" where
  "cyclic_graph =
     \<lparr>nodes = [ROOT, ''a==1'', ''b==1''],
      node_of = (\<lambda>k.
        if k = ''a==1'' then
          a_node ''a'' [1]
            [an_edge ''b'' INSTALL ''b==1'']
            [an_edge ''a'' TOP_LEVEL ROOT, an_edge ''a'' INSTALL ''b==1'']
        else if k = ''b==1'' then
          a_node ''b'' [1]
            [an_edge ''a'' INSTALL ''a==1'']
            [an_edge ''b'' INSTALL ''a==1'']
        else
          a_node [] [] [an_edge ''a'' TOP_LEVEL ''a==1''] [])\<rparr>"

section \<open>\<open>explain_duplicates\<close>\<close>

text \<open>Modelled from the spec: \<open>DependencyNode.get_incoming_install_edges\<close>, the subset of
  \<open>parents\<close> whose \<open>req_type\<close> is an install-type edge.\<close>

definition get_incoming_install_edges :: "'r DependencyNode \<Rightarrow> 'r Edge list" where
  "get_incoming_install_edges node = filter (\<lambda>e. req_type e = INSTALL) (parents node)"

text \<open>\<open>str(version)\<close> for a final release: the release numbers in decimal, joined by dots.\<close>

definition digit_char :: "nat \<Rightarrow> char" where
  "digit_char n = ''0123456789'' ! n"

fun string_of_nat :: "nat \<Rightarrow> string" where
  "string_of_nat n =
     (if n < 10 then [digit_char n] else string_of_nat (n div 10) @ [digit_char (n mod 10)])"

declare string_of_nat.simps [simp del]

fun version_str :: "Version \<Rightarrow> string" where
  "version_str [] = []"
| "version_str [n] = string_of_nat n"
| "version_str (n # ns) = string_of_nat n @ ''.'' @ version_str ns"

text \<open>
  What \<open>explain_duplicates\<close> prints, one value per \<open>print\<close> call:
  \<^item> \<open>PackageName d\<close>: \<open>\n{dep_name}\<close>;
  \<^item> \<open>VersionInUse v\<close>: the version of a node, indented;
  \<^item> \<open>Matches r ms\<close>: \<open>{req} matches {match_versions}\<close>;
  \<^item> \<open>Consumer p\<close>: the key of a parent of the group;
  \<^item> \<open>UsableByAll d v\<close>: \<open>* {dep_name}=={v} usable by all consumers\<close>;
  \<^item> \<open>NoSingleVersion d\<close>: \<open>* No single version of {dep_name} meets all requirements\<close>.
\<close>

datatype 'r report_line =
    PackageName string
  | VersionInUse Version
  | Matches 'r "string list"
  | Consumer key
  | UsableByAll string string
  | NoSingleVersion string

text \<open>
  The two dictionaries are association lists in insertion order. The values of
  \<open>parents_by_req\<close> are Python sets of keys: lists without repetition here, in the order
  the keys were added (Python fixes no order for a set; the verdict reads only lengths).
  Requirements are compared with the equality of the \<open>Requirement\<close> class.

  \<open>add_parent m r k\<close> is \<open>m.setdefault(r, set()).add(k)\<close>, and \<open>extend_users m v ps\<close> is
  \<open>m.setdefault(v, []).extend(ps)\<close>.
\<close>

fun add_parent :: "('r \<times> key list) list \<Rightarrow> 'r \<Rightarrow> key \<Rightarrow> ('r \<times> key list) list" where
  "add_parent [] r k = [(r, [k])]"
| "add_parent ((r', ks) # m) r k =
     (if r' = r then (r', if k \<in> set ks then ks else ks @ [k]) # m
      else (r', ks) # add_parent m r k)"

fun extend_users ::
    "(string \<times> key list) list \<Rightarrow> string \<Rightarrow> key list \<Rightarrow> (string \<times> key list) list" where
  "extend_users [] v ps = [(v, ps)]"
| "extend_users ((v', us) # m) v ps =
     (if v' = v then (v', us @ ps) # m else (v', us) # extend_users m v ps)"

definition parents_by_req :: "'r Edge list \<Rightarrow> ('r \<times> key list) list" where
  "parents_by_req edges =
     foldl (\<lambda>m parent_edge. add_parent m (req parent_edge) (destination_node parent_edge))
       [] edges"

text \<open>
  The loop \<open>for req, parents in parents_by_req.items()\<close>, with \<open>r\<close> for \<open>req\<close> and
  \<open>ps\<close> for \<open>parents\<close>. Its state is the pair of \<open>usable_versions\<close> and
  \<open>user_counter\<close>. The parameter \<open>spec_filter\<close> is
  \<open>req.specifier.filter\<close> of the \<open>packaging\<close> library.
\<close>

fun explain_groups ::
    "('r \<Rightarrow> Version list \<Rightarrow> Version list) \<Rightarrow> Version list \<Rightarrow> ('r \<times> key list) list \<Rightarrow>
     (string \<times> key list) list \<times> nat \<Rightarrow>
     ((string \<times> key list) list \<times> nat) \<times> 'r report_line list"
where
  "explain_groups spec_filter versions [] state = (state, [])"
| "explain_groups spec_filter versions ((r, ps) # groups) (usable_versions, user_counter) =
     (let user_counter = user_counter + length ps;
          match_versions = map version_str (spec_filter r versions);
          usable_versions =
            foldl (\<lambda>m mv. extend_users m mv ps) usable_versions match_versions;
          (state, out) =
            explain_groups spec_filter versions groups (usable_versions, user_counter)
      in (state, Matches r match_versions # map Consumer ps @ out))"

text \<open>The loop \<open>for node in sorted(nodes, key=lambda x: x.version)\<close>, over the sorted list.\<close>

fun explain_nodes ::
    "('r \<Rightarrow> Version list \<Rightarrow> Version list) \<Rightarrow> 'r DependencyGraph \<Rightarrow> Version list \<Rightarrow> key list \<Rightarrow>
     (string \<times> key list) list \<times> nat \<Rightarrow>
     ((string \<times> key list) list \<times> nat) \<times> 'r report_line list"
where
  "explain_nodes spec_filter graph versions [] state = (state, [])"
| "explain_nodes spec_filter graph versions (node # rest) state =
     (let (state, out) =
            explain_groups spec_filter versions
              (parents_by_req (get_incoming_install_edges (node_of graph node))) state;
          (state, out') = explain_nodes spec_filter graph versions rest state
      in (state, VersionInUse (version (node_of graph node)) # out @ out'))"

text \<open>The final \<open>for\<close> \<open>\<dots>\<close> \<open>else\<close> over \<open>usable_versions.items()\<close>: the first version
  whose list is as long as the counter, or none.\<close>

definition verdict :: "string \<Rightarrow> (string \<times> key list) list \<Rightarrow> nat \<Rightarrow> 'r report_line" where
  "verdict dep_name usable_versions user_counter =
     (case find (\<lambda>(v, users). length users = user_counter) usable_versions of
        Some (v, users) \<Rightarrow> UsableByAll dep_name v
      | None \<Rightarrow> NoSingleVersion dep_name)"

text \<open>One round of the outer loop, for one package name and the nodes recorded for it
  (\<open>dep_nodes\<close> is the loop variable \<open>nodes\<close>).\<close>

definition sorted_by_version :: "'r DependencyGraph \<Rightarrow> key list \<Rightarrow> key list" where
  "sorted_by_version graph dep_nodes = sort_key (\<lambda>x. version_key (version (node_of graph x))) dep_nodes"

definition explain_package ::
    "('r \<Rightarrow> Version list \<Rightarrow> Version list) \<Rightarrow> 'r DependencyGraph \<Rightarrow> string \<Rightarrow> key list \<Rightarrow>
     'r report_line list"
where
  "explain_package spec_filter graph dep_name dep_nodes =
     (let versions = map (\<lambda>node. version (node_of graph node)) dep_nodes in
      if length versions = 1 then []
      else
        (let ((usable_versions, user_counter), out) =
               explain_nodes spec_filter graph versions (sorted_by_version graph dep_nodes) ([], 0)
         in PackageName dep_name # out @ [verdict dep_name usable_versions user_counter]))"

text \<open>\<open>conflicts\<close> is the dictionary that \<open>graph.get_install_dependency_versions()\<close>
  returns, from a package name to the nodes of the install closure with that name; it is a
  parameter here. \<open>sorted(conflicts.items())\<close> orders it by name.\<close>

definition explain_duplicates ::
    "('r \<Rightarrow> Version list \<Rightarrow> Version list) \<Rightarrow> 'r DependencyGraph \<Rightarrow> (string \<times> key list) list \<Rightarrow>
     'r report_line list"
where
  "explain_duplicates spec_filter graph conflicts =
     concat (map (\<lambda>(dep_name, dep_nodes). explain_package spec_filter graph dep_name dep_nodes)
               (sort_key fst conflicts))"

subsection \<open>The verdict in the words of the specification\<close>

text \<open>
  All specifier groups of a package, version by version in ascending order; the version
  strings their specifiers accept, in the order they are met (\<open>candidates\<close>); the total
  consumer count, the sum of the sizes of the groups; and for a version string the number
  of parents accumulated for it, the sizes of the groups whose specifier accepts it.
  \<open>users_of m v\<close> reads the list stored for \<open>v\<close> in the dictionary \<open>m\<close>.
\<close>








subsection \<open>Specifiers on final releases\<close>

text \<open>
  A model of the requirements of \<open>packaging\<close> that name a package and bound its version
  with the comparison operators, as \<open>x>=1.0\<close> does; \<open>filter\<close> keeps the versions that
  satisfy every clause, in the order given.
\<close>

datatype operator = EQ | NE | GE | LE | GT | LT

record Requirement =
  req_name :: string
  req_specifier :: "(operator \<times> Version) list"

fun satisfies :: "Version \<Rightarrow> operator \<times> Version \<Rightarrow> bool" where
  "satisfies v (EQ, w) = (version_key v = version_key w)"
| "satisfies v (NE, w) = (version_key v \<noteq> version_key w)"
| "satisfies v (GE, w) = (version_key w \<le> version_key v)"
| "satisfies v (LE, w) = (version_key v \<le> version_key w)"
| "satisfies v (GT, w) = (version_key w < version_key v)"
| "satisfies v (LT, w) = (version_key v < version_key w)"

definition specifier_filter :: "Requirement \<Rightarrow> Version list \<Rightarrow> Version list" where
  "specifier_filter r vs = filter (\<lambda>v. list_all (satisfies v) (req_specifier r)) vs"

definition requires :: "string \<Rightarrow> operator \<Rightarrow> Version \<Rightarrow> Requirement" where
  "requires n op v = \<lparr>req_name = n, req_specifier = [(op, v)]\<rparr>"


text \<open>
  \<open>conflict_graph\<close>: \<open>a==1\<close> requires \<open>x==1.0\<close> and \<open>y>=1.0\<close>, \<open>b==1\<close> requires
  \<open>x==2.0\<close> and \<open>y==1.5\<close>; \<open>x\<close> is in use at 1.0 and 2.0, \<open>y\<close> at 1.5 and 2.0.
\<close>

definition conflict_graph :: "Requirement DependencyGraph" where
  "conflict_graph =
     \<lparr>nodes = [ROOT, ''a==1'', ''x==1.0'', ''y==2.0'', ''b==1'', ''x==2.0'', ''y==1.5''],
      node_of = (\<lambda>k.
        if k = ''a==1'' then
          a_node ''a'' [1]
            [an_edge (requires ''x'' EQ [1, 0]) INSTALL ''x==1.0'',
             an_edge (requires ''y'' GE [1, 0]) INSTALL ''y==2.0'']
            [an_edge (requires ''a'' GE [0]) TOP_LEVEL ROOT]
        else if k = ''b==1'' then
          a_node ''b'' [1]
            [an_edge (requires ''x'' EQ [2, 0]) INSTALL ''x==2.0'',
             an_edge (requires ''y'' EQ [1, 5]) INSTALL ''y==1.5'']
            [an_edge (requires ''b'' GE [0]) TOP_LEVEL ROOT]
        else if k = ''x==1.0'' then
          a_node ''x'' [1, 0] [] [an_edge (requires ''x'' EQ [1, 0]) INSTALL ''a==1'']
        else if k = ''x==2.0'' then
          a_node ''x'' [2, 0] [] [an_edge (requires ''x'' EQ [2, 0]) INSTALL ''b==1'']
        else if k = ''y==1.5'' then
          a_node ''y'' [1, 5] [] [an_edge (requires ''y'' EQ [1, 5]) INSTALL ''b==1'']
        else if k = ''y==2.0'' then
          a_node ''y'' [2, 0] [] [an_edge (requires ''y'' GE [1, 0]) INSTALL ''a==1'']
        else
          a_node [] []
            [an_edge (requires ''a'' GE [0]) TOP_LEVEL ''a==1'',
             an_edge (requires ''b'' GE [0]) TOP_LEVEL ''b==1''] [])\<rparr>"

section \<open>The build plan: \<open>MakeNode\<close> and \<open>to_makefile\<close>\<close>

text \<open>Every call of \<open>from_graph_node\<close> builds new \<open>MakeNode\<close> objects, so the objects
  form a tree; \<open>add_dependency\<close> appends to \<open>dependencies\<close>.\<close>

datatype MakeNode =
  MakeNode (target_name: string) (dist_name: "string option") (dist_version: "Version option")
    (command: string) (dependencies: "MakeNode list")

text \<open>
  \<open>format\<close> returns text, a sequence of rule blocks. A block is kept here as the three
  values written into it; \<open>rule_text\<close> is the block's text after
  \<open>textwrap.dedent\<close>, which removes the indentation of the template and empties the
  line of an empty command.
\<close>

datatype rule = Rule (rule_target: string) (rule_dependencies: "string list") (rule_command: string)

fun join_names :: "string list \<Rightarrow> string" where
  "join_names [] = []"
| "join_names [n] = n"
| "join_names (n # ns) = n @ '' '' @ join_names ns"

definition rule_text :: "rule \<Rightarrow> string" where
  "rule_text r =
     [CHR 0x0A] @ ''#.PHONY: '' @ rule_target r @ [CHR 0x0A] @
     rule_target r @ '': '' @ join_names (rule_dependencies r) @ [CHR 0x0A] @
     rule_command r @ [CHR 0x0A]"

text \<open>The loop that builds \<open>dependency_names\<close>: each target name once, in order of first
  appearance.\<close>

fun dependency_names :: "MakeNode list \<Rightarrow> string list \<Rightarrow> string list" where
  "dependency_names [] names = names"
| "dependency_names (d # ds) names =
     dependency_names ds (if target_name d \<in> set names then names else names @ [target_name d])"

text \<open>\<open>format\<close> takes the set \<open>seen\<close> and returns it updated, since the calls on the
  dependencies share and change it one after the other. \<open>format_all\<close> is
  \<open>d.format(seen) for d in self.dependencies\<close>.\<close>

fun format :: "MakeNode \<Rightarrow> string set \<Rightarrow> rule list \<times> string set"
  and format_all :: "MakeNode list \<Rightarrow> string set \<Rightarrow> rule list \<times> string set"
where
  "format (MakeNode target dn dv cmd deps) seen =
     (if target \<in> seen then ([], seen)
      else
        (let (rules, seen) = format_all deps (insert target seen)
         in (Rule target (dependency_names deps []) cmd # rules, seen)))"
| "format_all [] seen = ([], seen)"
| "format_all (d # ds) seen =
     (let (rules, seen) = format d seen;
          (rules', seen) = format_all ds seen
      in (rules @ rules', seen))"

definition format_text :: "MakeNode \<Rightarrow> string set \<Rightarrow> string" where
  "format_text m seen = concat (map rule_text (fst (format m seen)))"

text \<open>
  \<open>from_graph_node\<close> calls itself on the children of a node and keeps no record of the
  nodes it has met. The argument \<open>fuel\<close> bounds the nesting of calls; \<open>None\<close> is a run
  that needs more. The test \<open>child_edge.req_type == RequirementType.BUILD\<close> is made
  with the equality \<open>eq\<close> of the enum. \<open>from_children\<close> is the loop over \<open>node.children\<close>; its state is the pair
  of the dependencies of \<open>build_node\<close> and of \<open>install_node\<close>.
\<close>

definition build_command :: "string \<Rightarrow> Version \<Rightarrow> string" where
  "build_command name v =
     [CHR 0x09] @ ''fromager build $(WHEEL_SERVER_ARGS) '' @ name @ '' '' @ version_str v @
     '' $(SDIST_SERVER_URL)''"

fun from_graph_node ::
    "(RequirementType \<Rightarrow> RequirementType \<Rightarrow> bool) \<Rightarrow> nat \<Rightarrow> 'r DependencyGraph \<Rightarrow> key \<Rightarrow>
     MakeNode option"
  and from_children ::
    "(RequirementType \<Rightarrow> RequirementType \<Rightarrow> bool) \<Rightarrow> nat \<Rightarrow> 'r DependencyGraph \<Rightarrow> 'r Edge list \<Rightarrow>
     MakeNode list \<Rightarrow> MakeNode list \<Rightarrow> (MakeNode list \<times> MakeNode list) option"
where
  "from_graph_node eq 0 graph node = None"
| "from_graph_node eq (Suc fuel) graph node =
     (let n = node_of graph node;
          target = canonicalized_name n @ ''__'' @ version_str (version n);
          wheel_node =
            MakeNode (target @ ''__wheel'') (Some (canonicalized_name n)) (Some (version n))
              (build_command (canonicalized_name n) (version n)) []
      in do {
        (build_deps, install_deps) \<leftarrow> from_children eq fuel graph (children n) [] [];
        Some (MakeNode target None None []
          ((if build_deps \<noteq> [] then [MakeNode (target @ ''__build'') None None [] build_deps]
            else []) @
           [wheel_node] @
           (if install_deps \<noteq> []
            then [MakeNode (target @ ''__install'') None None [] install_deps] else [])))
      })"
| "from_children eq fuel graph [] build_deps install_deps = Some (build_deps, install_deps)"
| "from_children eq fuel graph (child_edge # rest) build_deps install_deps =
     do {
       child \<leftarrow> from_graph_node eq fuel graph (destination_node child_edge);
       (if eq (req_type child_edge) BUILD
        then from_children eq fuel graph rest (build_deps @ [child]) install_deps
        else from_children eq fuel graph rest build_deps (install_deps @ [child]))
     }"

text \<open>\<open>to_makefile\<close>: the target \<open>all\<close> over the children of the root, the two
  variables of the header, and the rules of \<open>top.format(set())\<close>.\<close>

fun top_dependencies ::
    "(RequirementType \<Rightarrow> RequirementType \<Rightarrow> bool) \<Rightarrow> nat \<Rightarrow> 'r DependencyGraph \<Rightarrow> 'r Edge list \<Rightarrow>
     MakeNode list option"
where
  "top_dependencies eq fuel graph [] = Some []"
| "top_dependencies eq fuel graph (e # rest) =
     do {
       child \<leftarrow> from_graph_node eq fuel graph (destination_node e);
       others \<leftarrow> top_dependencies eq fuel graph rest;
       Some (child # others)
     }"

record makefile =
  SDIST_SERVER_URL :: string
  WHEEL_SERVER_ARGS :: string
  rules :: "rule list"

definition to_makefile ::
    "(RequirementType \<Rightarrow> RequirementType \<Rightarrow> bool) \<Rightarrow> nat \<Rightarrow> 'r DependencyGraph \<Rightarrow> string \<Rightarrow> string \<Rightarrow>
     makefile option"
where
  "to_makefile eq fuel graph wheel_server_url sdist_server_url =
     do {
       deps \<leftarrow> top_dependencies eq fuel graph (children (node_of graph ROOT));
       Some \<lparr>SDIST_SERVER_URL = sdist_server_url,
             WHEEL_SERVER_ARGS =
               (if wheel_server_url \<noteq> [] then ''--wheel-server-url '' @ wheel_server_url
                else []),
             rules = fst (format (MakeNode ''all'' None None [] deps) {})\<rparr>
     }"

text \<open>All nodes of a tree of \<open>MakeNode\<close> objects.\<close>

fun subnodes :: "MakeNode \<Rightarrow> MakeNode set" where
  "subnodes (MakeNode target dn dv cmd deps) =
     insert (MakeNode target dn dv cmd deps) (\<Union>d \<in> set deps. subnodes d)"

text \<open>\<open>diamond_graph\<close>: \<open>a==1\<close> and \<open>b==1\<close> are top-level and both need \<open>c==1\<close> to
  run.\<close>

definition diamond_graph :: "string DependencyGraph" where
  "diamond_graph =
     \<lparr>nodes = [ROOT, ''a==1'', ''c==1'', ''b==1''],
      node_of = (\<lambda>k.
        if k = ''a==1'' then
          a_node ''a'' [1] [an_edge ''c'' INSTALL ''c==1''] [an_edge ''a'' TOP_LEVEL ROOT]
        else if k = ''b==1'' then
          a_node ''b'' [1] [an_edge ''c'' INSTALL ''c==1''] [an_edge ''b'' TOP_LEVEL ROOT]
        else if k = ''c==1'' then
          a_node ''c'' [1] []
            [an_edge ''c'' INSTALL ''a==1'', an_edge ''c'' INSTALL ''b==1'']
        else
          a_node [] []
            [an_edge ''a'' TOP_LEVEL ''a==1'', an_edge ''b'' TOP_LEVEL ''b==1''] [])\<rparr>"

text \<open>The rule block written for a node: its target, the target names of its
  dependencies, each once, and its command.\<close>

definition block :: "MakeNode \<Rightarrow> rule" where
  "block d = Rule (target_name d) (dependency_names (dependencies d) []) (command d)"

text \<open>
  While \<open>format\<close> runs over a tree \<open>whole\<close>, a target name in \<open>seen\<close> belongs either to
  a node whose dependencies are being formatted (\<open>opened\<close>), or to a node all of whose
  tree has been written.
\<close>

definition written :: "string set \<Rightarrow> MakeNode \<Rightarrow> bool" where
  "written seen d = (\<forall>x \<in> subnodes d. target_name x \<in> seen)"

definition settled :: "MakeNode \<Rightarrow> MakeNode set \<Rightarrow> string set \<Rightarrow> bool" where
  "settled whole opened seen =
     (\<forall>t \<in> seen. (\<exists>a \<in> opened. target_name a = t) \<or>
                  (\<exists>d \<in> subnodes whole. target_name d = t \<and> written seen d))"

text \<open>
  The tree of \<open>top\<close> for the diamond, and for each of its target names the node that
  carries it.
\<close>

definition diamond_top :: MakeNode where
  "diamond_top =
     MakeNode ''all'' None None []
       [MakeNode ''a__1'' None None []
          [MakeNode ''a__1__wheel'' (Some ''a'') (Some [1]) (build_command ''a'' [1]) [],
           MakeNode ''a__1__install'' None None []
             [MakeNode ''c__1'' None None []
                [MakeNode ''c__1__wheel'' (Some ''c'') (Some [1]) (build_command ''c'' [1]) []]]],
        MakeNode ''b__1'' None None []
          [MakeNode ''b__1__wheel'' (Some ''b'') (Some [1]) (build_command ''b'' [1]) [],
           MakeNode ''b__1__install'' None None []
             [MakeNode ''c__1'' None None []
                [MakeNode ''c__1__wheel'' (Some ''c'') (Some [1]) (build_command ''c'' [1]) []]]]]"

definition diamond_node :: "string \<Rightarrow> MakeNode" where
  "diamond_node t =
     (let c = MakeNode ''c__1'' None None []
                [MakeNode ''c__1__wheel'' (Some ''c'') (Some [1]) (build_command ''c'' [1]) []]
      in
      if t = ''all'' then diamond_top
      else if t = ''a__1'' then
        MakeNode ''a__1'' None None []
          [MakeNode ''a__1__wheel'' (Some ''a'') (Some [1]) (build_command ''a'' [1]) [],
           MakeNode ''a__1__install'' None None [] [c]]
      else if t = ''b__1'' then
        MakeNode ''b__1'' None None []
          [MakeNode ''b__1__wheel'' (Some ''b'') (Some [1]) (build_command ''b'' [1]) [],
           MakeNode ''b__1__install'' None None [] [c]]
      else if t = ''a__1__wheel'' then
        MakeNode ''a__1__wheel'' (Some ''a'') (Some [1]) (build_command ''a'' [1]) []
      else if t = ''b__1__wheel'' then
        MakeNode ''b__1__wheel'' (Some ''b'') (Some [1]) (build_command ''b'' [1]) []
      else if t = ''c__1__wheel'' then
        MakeNode ''c__1__wheel'' (Some ''c'') (Some [1]) (build_command ''c'' [1]) []
      else if t = ''a__1__install'' then MakeNode ''a__1__install'' None None [] [c]
      else if t = ''b__1__install'' then MakeNode ''b__1__install'' None None [] [c]
      else c)"


section \<open>\<open>migrate_graph\<close>\<close>

text \<open>
  The legacy file is a JSON object from a key to a list of four strings each,
  \<open>[req_type, req_name, req_version, req]\<close>. It is kept as the list of its entries, read
  by key; \<open>old_graph.get(curr_key, [])\<close> is \<open>entries old_graph curr_key\<close>.
\<close>

type_synonym legacy_tuple = "string \<times> string \<times> string \<times> string"

type_synonym legacy_graph = "(key \<times> legacy_tuple list) list"

definition entries :: "legacy_graph \<Rightarrow> key \<Rightarrow> legacy_tuple list" where
  "entries old_graph k = (case map_of old_graph k of None \<Rightarrow> [] | Some ts \<Rightarrow> ts)"

text \<open>The key pushed for a tuple, \<open>{req_name}=={req_version}\<close>.\<close>

definition child_key :: "legacy_tuple \<Rightarrow> key" where
  "child_key t = (case t of (rt, rn, rv, rq) \<Rightarrow> rn @ ''=='' @ rv)"

text \<open>\<open>curr_key.partition("==")\<close>: the text before the first \<open>==\<close> and the text after
  it; the whole key and the empty string when there is none.\<close>

fun partition_eq :: "string \<Rightarrow> string \<times> string" where
  "partition_eq [] = ([], [])"
| "partition_eq [c] = ([c], [])"
| "partition_eq (c # d # cs) =
     (if c = CHR ''='' \<and> d = CHR ''='' then ([], cs)
      else (let (before, after) = partition_eq (d # cs) in (c # before, after)))"

text \<open>
  The functions of the \<open>packaging\<close> library that the migration calls are parameters:
  \<open>canonicalize_name\<close>, the constructors \<open>Version\<close> and \<open>Requirement\<close>, which raise on
  text they cannot parse (\<open>None\<close> here), and the name of a requirement.
\<close>

record 'r packaging =
  canonicalize_name :: "string \<Rightarrow> string"
  parse_version :: "string \<Rightarrow> Version option"
  parse_requirement :: "string \<Rightarrow> 'r option"
  requirement_name :: "'r \<Rightarrow> string"

datatype error = InvalidVersion string | InvalidRequirement string | ValueError string

text \<open>Modelled from the spec: the constructor of the enum \<open>RequirementType\<close> from the
  text of a value; any other text is a \<open>ValueError\<close>.\<close>

definition requirement_type_of :: "string \<Rightarrow> RequirementType option" where
  "requirement_type_of s =
     (if s = ''install'' then Some INSTALL
      else if s = ''build'' then Some BUILD
      else if s = ''build-system'' then Some BUILD_SYSTEM
      else if s = ''build-backend'' then Some BUILD_BACKEND
      else if s = ''toplevel'' then Some TOP_LEVEL
      else None)"

text \<open>
  Modelled from the spec: \<open>DependencyGraph()\<close> and \<open>DependencyGraph.add_dependency\<close>,
  which are not in \<open>graph.py\<close>. A graph is created with the root only.
  \<open>add_dependency\<close> canonicalizes the parent name, looks up or creates the parent node
  (the root when there is no parent name), looks up or creates the child node keyed by the
  canonical name of the requirement and the version, and appends a new edge, once to the
  children of the parent and once to the parents of the child. It never fails. A parent
  name without a version stands for the node with the empty version.
\<close>

definition empty_graph :: "'r DependencyGraph" where
  "empty_graph =
     \<lparr>nodes = [ROOT],
      node_of = (\<lambda>k. \<lparr>canonicalized_name = [], version = [], children = [], parents = []\<rparr>)\<rparr>"

definition node_key :: "string \<Rightarrow> Version \<Rightarrow> key" where
  "node_key n v = n @ ''=='' @ version_str v"

definition ensure_node :: "'r DependencyGraph \<Rightarrow> key \<Rightarrow> string \<Rightarrow> Version \<Rightarrow> 'r DependencyGraph" where
  "ensure_node graph k n v =
     (if k \<in> set (nodes graph) then graph
      else graph\<lparr>nodes := nodes graph @ [k],
                 node_of := (node_of graph)
                   (k := \<lparr>canonicalized_name = n, version = v, children = [], parents = []\<rparr>)\<rparr>)"

definition add_dependency ::
    "'r packaging \<Rightarrow> 'r DependencyGraph \<Rightarrow> string option \<Rightarrow> Version option \<Rightarrow> RequirementType \<Rightarrow>
     Version \<Rightarrow> 'r \<Rightarrow> 'r DependencyGraph"
where
  "add_dependency P graph parent_name parent_version rt req_version r =
     (let pv = (case parent_version of None \<Rightarrow> [] | Some v \<Rightarrow> v);
          (parent_key, graph) =
            (case parent_name of
               None \<Rightarrow> (ROOT, graph)
             | Some n \<Rightarrow>
                 (node_key (canonicalize_name P n) pv,
                  ensure_node graph (node_key (canonicalize_name P n) pv)
                    (canonicalize_name P n) pv));
          child_name = canonicalize_name P (requirement_name P r);
          child = node_key child_name req_version;
          graph = ensure_node graph child child_name req_version;
          parent_node = node_of graph parent_key;
          graph = graph\<lparr>node_of := (node_of graph)
                    (parent_key := parent_node\<lparr>children := children parent_node @
                       [\<lparr>req = r, req_type = rt, destination_node = child\<rparr>]\<rparr>)\<rparr>;
          child_node = node_of graph child
      in graph\<lparr>node_of := (node_of graph)
            (child := child_node\<lparr>parents := parents child_node @
               [\<lparr>req = r, req_type = rt, destination_node = parent_key\<rparr>]\<rparr>)\<rparr>)"

text \<open>
  The loop \<open>for req_type, req_name, req_version, req in old_graph.get(curr_key, [])\<close>,
  with \<open>rt\<close>, \<open>rn\<close>, \<open>rv\<close>, \<open>rq\<close> for the four strings. The arguments of
  \<open>add_dependency\<close> are evaluated in the order written, and the first that raises ends
  the migration. The top of the stack is the head of the list, so \<open>stack.append(k)\<close>
  is \<open>k # stack\<close>.
\<close>

fun add_tuples ::
    "'r packaging \<Rightarrow> key \<Rightarrow> legacy_tuple list \<Rightarrow> 'r DependencyGraph \<Rightarrow> key list \<Rightarrow>
     error + ('r DependencyGraph \<times> key list)"
where
  "add_tuples P curr_key [] graph stack = Inr (graph, stack)"
| "add_tuples P curr_key ((rt, rn, rv, rq) # rest) graph stack =
     (let (parent_name, parent_version) = partition_eq curr_key in
      case (if parent_version \<noteq> [] then map_option Some (parse_version P parent_version)
            else Some None) of
        None \<Rightarrow> Inl (InvalidVersion parent_version)
      | Some pv \<Rightarrow>
     (case requirement_type_of rt of
        None \<Rightarrow> Inl (ValueError rt)
      | Some t \<Rightarrow>
     (case parse_version P rv of
        None \<Rightarrow> Inl (InvalidVersion rv)
      | Some v \<Rightarrow>
     (case parse_requirement P rq of
        None \<Rightarrow> Inl (InvalidRequirement rq)
      | Some r \<Rightarrow>
          add_tuples P curr_key rest
            (add_dependency P graph
               (if parent_name \<noteq> [] then Some (canonicalize_name P parent_name) else None)
               pv t v r)
            (child_key (rt, rn, rv, rq) # stack)))))"

text \<open>
  The \<open>while stack\<close> loop. It may in principle run forever, so its result is an option,
  \<open>None\<close> for a run that does not end. Besides the graph it carries \<open>processed\<close>, the
  keys whose tuples it has gone through, in order; the code has no such variable, it is
  kept here to speak about how often a key is processed. A run ends with the keys
  processed and either the error raised or the graph, which \<open>migrate_graph\<close> then writes
  out with \<open>graph.serialize\<close>.
\<close>

partial_function (option) migrate_loop ::
    "'r packaging \<Rightarrow> legacy_graph \<Rightarrow> key list \<Rightarrow> key set \<Rightarrow> 'r DependencyGraph \<Rightarrow> key list \<Rightarrow>
     (key list \<times> (error + 'r DependencyGraph)) option"
where
  "migrate_loop P old_graph stack visited graph processed =
     (case stack of
        [] \<Rightarrow> Some (processed, Inr graph)
      | curr_key # stack \<Rightarrow>
          if curr_key \<in> visited then migrate_loop P old_graph stack visited graph processed
          else
            (case add_tuples P curr_key (entries old_graph curr_key) graph stack of
               Inl e \<Rightarrow> Some (processed @ [curr_key], Inl e)
             | Inr (graph, stack) \<Rightarrow>
                 migrate_loop P old_graph stack (insert curr_key visited) graph
                   (processed @ [curr_key])))"

definition migrate_graph ::
    "'r packaging \<Rightarrow> legacy_graph \<Rightarrow> (key list \<times> (error + 'r DependencyGraph)) option" where
  "migrate_graph P old_graph = migrate_loop P old_graph [ROOT] {} empty_graph []"

text \<open>The keys reachable from \<open>ROOT\<close> through the recorded tuples.\<close>

inductive_set reachable :: "legacy_graph \<Rightarrow> key set" for old_graph :: legacy_graph where
  root: "ROOT \<in> reachable old_graph"
| step: "k \<in> reachable old_graph \<Longrightarrow> t \<in> set (entries old_graph k) \<Longrightarrow>
         child_key t \<in> reachable old_graph"

text \<open>All keys that any tuple of the file can push.\<close>

definition child_keys :: "legacy_graph \<Rightarrow> key set" where
  "child_keys old_graph = child_key ` (\<Union>(k, ts) \<in> set old_graph. set ts)"

subsection \<open>A small instance of the library, and a legacy file\<close>

text \<open>
  Names in lower case with runs of \<open>-\<close>, \<open>_\<close> and \<open>.\<close> as one \<open>-\<close> (for names
  already in lower case), versions as numbers joined by dots, and requirements kept as
  their text, named by their leading letters and digits.
\<close>

fun canonical :: "bool \<Rightarrow> string \<Rightarrow> string" where
  "canonical after_sep [] = []"
| "canonical after_sep (c # cs) =
     (if c \<in> set ''-_.'' then (if after_sep then [] else ''-'') @ canonical True cs
      else c # canonical False cs)"

definition digit_value :: "char \<Rightarrow> nat option" where
  "digit_value c = map_of (zip ''0123456789'' [0, 1, 2, 3, 4, 5, 6, 7, 8, 9]) c"

fun parse_release :: "string \<Rightarrow> nat option \<Rightarrow> Version option" where
  "parse_release [] None = None"
| "parse_release [] (Some n) = Some [n]"
| "parse_release (c # cs) acc =
     (if c = CHR ''.'' then
        (case acc of None \<Rightarrow> None
         | Some n \<Rightarrow> map_option (Cons n) (parse_release cs None))
      else
        (case digit_value c of None \<Rightarrow> None
         | Some d \<Rightarrow> parse_release cs (Some (10 * (case acc of None \<Rightarrow> 0 | Some n \<Rightarrow> n) + d))))"

definition simple_packaging :: "string packaging" where
  "simple_packaging =
     \<lparr>canonicalize_name = canonical False,
      parse_version = (\<lambda>s. parse_release s None),
      parse_requirement = (\<lambda>s. if s = [] then None else Some s),
      requirement_name =
        takeWhile (\<lambda>c. c \<in> set ''abcdefghijklmnopqrstuvwxyz0123456789-_.'')\<rparr>"

text \<open>
  \<open>legacy_chain\<close>: \<open>ROOT\<close> names \<open>a==1\<close>, \<open>a==1\<close> names \<open>b==2\<close>, and \<open>b==2\<close> names
  \<open>a==1\<close> again. The entry of \<open>z==9\<close> is named by no one, and its version \<open>oops\<close>
  does not parse.
\<close>

definition legacy_chain :: legacy_graph where
  "legacy_chain =
     [([], [(''toplevel'', ''a'', ''1'', ''a'')]),
      (''a==1'', [(''install'', ''b'', ''2'', ''b>=2'')]),
      (''b==2'', [(''install'', ''a'', ''1'', ''a'')]),
      (''z==9'', [(''install'', ''y'', ''oops'', ''y'')])]"

section \<open>Properties of \<open>find_why\<close> and \<open>why\<close>\<close>

lemma find_why_parents_Cons:
  "find_why_parents eq fuel g n md d rt (e # ps) a t =
     do {
       ls \<leftarrow> explain_parent eq fuel g n md d rt e;
       (out, flags) \<leftarrow> find_why_parents eq fuel g n md d rt ps
          (a \<and> \<not> survives eq rt e) (t \<or> destination_node e = ROOT);
       Some (ls @ out, flags)
     }"
  by (cases "find_why eq fuel g (destination_node e) md (d + 1) []")
     (simp_all add: explain_parent_def survives_def)

lemma find_why_parents_closed:
  "find_why_parents eq fuel g n md d rt ps a t =
     map_option (\<lambda>ls. (concat ls, a \<and> filter (survives eq rt) ps = [],
                         t \<or> filter (\<lambda>e. destination_node e = ROOT) ps \<noteq> []))
       (those (map (explain_parent eq fuel g n md d rt) ps))"
proof (induction ps arbitrary: a t)
  case Nil
  show ?case by simp
next
  case (Cons e ps)
  show ?case
    unfolding find_why_parents_Cons Cons
    by (cases "explain_parent eq fuel g n md d rt e";
        cases "those (map (explain_parent eq fuel g n md d rt) ps)") auto
qed

lemma find_why_Suc:
  "find_why eq (Suc fuel) graph node max_depth depth rt =
     map_option
       (\<lambda>ls. concat ls @
          (if filter (\<lambda>e. destination_node e = ROOT \<or> survives eq rt e)
                (parents (node_of graph node)) = []
           then [NotFound (canonicalized_name (node_of graph node)) rt] else []))
       (those (map (explain_parent eq fuel graph node max_depth depth rt)
                 (parents (node_of graph node))))"
proof -
  have "(filter (survives eq rt) ps = [] \<and> \<not> filter (\<lambda>e. destination_node e = ROOT) ps \<noteq> []) =
        (filter (\<lambda>e. destination_node e = ROOT \<or> survives eq rt e) ps = [])" for ps :: "'a Edge list"
    by (auto simp: filter_empty_conv)
  then show ?thesis
    by (cases "those (map (explain_parent eq fuel graph node max_depth depth rt)
                 (parents (node_of graph node)))")
       (simp_all add: find_why_parents_closed)
qed

text \<open>
  Claim C8. One call of \<open>find_why\<close> prints, for each incoming edge in order, what
  \<open>explain_parent\<close> gives for it: an edge whose parent is \<open>ROOT\<close> gives exactly the
  top-level line for the node, with no call on \<open>ROOT\<close>. After the edges it prints the
  not-found line exactly when no edge comes from \<open>ROOT\<close> and no other edge passes the
  filter. The result is \<open>None\<close> only if a call on a parent needs more nesting.
\<close>

theorem find_why_root_and_not_found:
  "find_why eq (Suc fuel) graph node max_depth depth rt =
     map_option
       (\<lambda>ls. concat ls @
          (if filter (\<lambda>e. destination_node e = ROOT \<or> survives eq rt e)
                (parents (node_of graph node)) = []
           then [NotFound (canonicalized_name (node_of graph node)) rt] else []))
       (those (map (explain_parent eq fuel graph node max_depth depth rt)
                 (parents (node_of graph node))))"
  by (rule find_why_Suc)

lemmas small_graph_simps = small_graph_def an_edge_def a_node_def ROOT_def
  explain_parent_def survives_def type_in_def build_matches_def

text \<open>In \<open>small_graph\<close>, \<open>a==1\<close> is top-level; no edge into \<open>c==3\<close> is an install
  edge; and with the filter \<open>build\<close> on \<open>b==2\<close> the build-system edge from \<open>c==3\<close>
  passes, so there is no not-found line.\<close>

theorem find_why_root_and_not_found_witness:
  "find_why build_matches 2 small_graph ''a==1'' (- 1) 1 [] = Some [IsToplevel ''a==1''] \<and>
   find_why build_matches 2 small_graph ''c==3'' (- 1) 1 [INSTALL] =
     Some [NotFound ''c'' [INSTALL]] \<and>
   find_why build_matches 4 small_graph ''b==2'' (- 1) 1 [BUILD] =
     Some [IsDependencyOf 1 BUILD_SYSTEM ''c==3'' ''b'',
           IsDependencyOf 2 BUILD ''a==1'' ''c'', IsToplevel ''a==1'']"
  using find_why_root_and_not_found [of build_matches 1 small_graph "''a==1''" "- 1" 1 "[]"]
        find_why_root_and_not_found [of build_matches 1 small_graph "''c==3''" "- 1" 1 "[INSTALL]"]
        find_why_root_and_not_found [of build_matches 3 small_graph "''b==2''" "- 1" 1 "[BUILD]"]
  by (simp add: small_graph_simps eval_nat_numeral)





subsection \<open>The depth argument\<close>

lemma cyclic_graph_diverges:
  "find_why eq fuel cyclic_graph ''a==1'' (- 1) depth [] = None \<and>
   find_why eq fuel cyclic_graph ''b==1'' (- 1) depth [] = None"
proof (induction fuel arbitrary: depth)
  case 0
  show ?case by simp
next
  case (Suc fuel)
  have a: "parents (node_of cyclic_graph ''a==1'') =
             [an_edge ''a'' TOP_LEVEL ROOT, an_edge ''a'' INSTALL ''b==1'']"
    by (simp add: cyclic_graph_def a_node_def)
  have b: "parents (node_of cyclic_graph ''b==1'') = [an_edge ''b'' INSTALL ''a==1'']"
    by (simp add: cyclic_graph_def a_node_def)
  show ?case
    unfolding find_why.simps a b
    by (simp add: Suc an_edge_def ROOT_def)
qed

text \<open>
  Claim C5. With \<open>max_depth = -1\<close> on \<open>cyclic_graph\<close>, where \<open>a==1\<close> and \<open>b==1\<close>
  require each other, no bound on the nesting of calls is enough for \<open>find_why\<close> to
  return: the branch through \<open>b==1\<close> comes back to \<open>a==1\<close> and never ends at
  \<open>ROOT\<close>.
\<close>

theorem find_why_unbounded_on_cycle:
  "find_why eq fuel cyclic_graph ''a==1'' (- 1) 1 [] = None"
  by (simp add: cyclic_graph_diverges)

text \<open>With \<open>max_depth = 0\<close> one call prints the direct parents and makes no further
  call.\<close>

lemma find_why_max_depth_zero:
  "find_why eq (Suc fuel) graph node 0 depth rt =
     Some (concat (map (\<lambda>e. if destination_node e = ROOT then [IsToplevel node]
                            else if rt \<noteq> [] \<and> \<not> type_in eq (req_type e) rt then []
                            else [IsDependencyOf depth (req_type e) (destination_node e) (req e)])
                     (parents (node_of graph node))) @
           (if filter (\<lambda>e. destination_node e = ROOT \<or> survives eq rt e)
                 (parents (node_of graph node)) = []
            then [NotFound (canonicalized_name (node_of graph node)) rt] else []))"
proof -
  have "those (map (explain_parent eq fuel graph node 0 depth rt) ps) =
        Some (map (\<lambda>e. if destination_node e = ROOT then [IsToplevel node]
                         else if rt \<noteq> [] \<and> \<not> type_in eq (req_type e) rt then []
                         else [IsDependencyOf depth (req_type e) (destination_node e) (req e)]) ps)"
    for ps
    by (induction ps) (simp_all add: explain_parent_def)
  then show ?thesis
    unfolding find_why_Suc by simp
qed

lemma those_map_Some:
  "(\<And>x. x \<in> set xs \<Longrightarrow> f x \<noteq> None) \<Longrightarrow> those (map f xs) \<noteq> None"
  by (induction xs) (auto split: option.splits)

text \<open>With a positive \<open>max_depth\<close> the calls nest at most \<open>max_depth + 1 - depth\<close>
  times below the first, on every graph.\<close>

lemma find_why_bounded_returns:
  "0 < max_depth \<Longrightarrow> nat (max_depth + 1 - depth) < fuel \<Longrightarrow>
   find_why eq fuel graph node max_depth depth rt \<noteq> None"
proof (induction fuel arbitrary: node depth rt)
  case 0
  then show ?case by simp
next
  case (Suc fuel)
  have "explain_parent eq fuel graph node max_depth depth rt e \<noteq> None" for e
  proof (cases "depth \<le> max_depth")
    case True
    with Suc.prems have "nat (max_depth + 1 - (depth + 1)) < fuel" by linarith
    from Suc.IH [OF Suc.prems(1) this] show ?thesis
      by (simp add: explain_parent_def)
  next
    case False
    with Suc.prems show ?thesis
      by (simp add: explain_parent_def)
  qed
  then have "those (map (explain_parent eq fuel graph node max_depth depth rt)
                (parents (node_of graph node))) \<noteq> None"
    by (intro those_map_Some)
  then show ?case
    unfolding find_why_Suc by auto
qed

text \<open>Where the parents of the nodes above \<open>node\<close> form no cycle, \<open>find_why\<close>
  returns for every \<open>max_depth\<close>.\<close>

lemma find_why_acyclic_returns:
  assumes rank: "\<And>k e. e \<in> set (parents (node_of graph k)) \<Longrightarrow> destination_node e \<noteq> ROOT \<Longrightarrow>
                   rank (destination_node e) < (rank k :: nat)"
  shows "rank node < fuel \<Longrightarrow> find_why eq fuel graph node max_depth depth rt \<noteq> None"
proof (induction fuel arbitrary: node depth rt)
  case 0
  then show ?case by simp
next
  case (Suc fuel)
  have "explain_parent eq fuel graph node max_depth depth rt e \<noteq> None"
    if "e \<in> set (parents (node_of graph node))" for e
  proof (cases "destination_node e = ROOT")
    case True
    then show ?thesis by (simp add: explain_parent_def)
  next
    case False
    with rank [OF that] Suc.prems have "rank (destination_node e) < fuel" by linarith
    from Suc.IH [OF this] show ?thesis
      by (simp add: explain_parent_def)
  qed
  then have "those (map (explain_parent eq fuel graph node max_depth depth rt)
                (parents (node_of graph node))) \<noteq> None"
    by (intro those_map_Some)
  then show ?case
    unfolding find_why_Suc by auto
qed

subsection \<open>\<open>why\<close> with no matching node\<close>

text \<open>
  Claim C9, as the code has it. When no node has the given name, or none of them has one of
  the given versions, \<open>why\<close> returns normally and prints nothing at all.
\<close>

theorem why_no_match_prints_nothing:
  "filter (\<lambda>k. versions = [] \<or>
               version_key (version (node_of graph k)) \<in> version_key ` set versions)
     (get_nodes_by_name graph package_name) = [] \<Longrightarrow>
   why eq fuel graph package_name versions depth rt = Some []"
  by (cases "versions = []") (simp_all add: why_def Let_def)

text \<open>\<open>small_graph\<close> has no package \<open>zope\<close>.\<close>

theorem why_no_match_prints_nothing_witness:
  "filter (\<lambda>k. [] = [] \<or> version_key (version (node_of small_graph k)) \<in> version_key ` set [])
     (get_nodes_by_name small_graph ''zope'') = [] \<and>
   why build_matches 5 small_graph ''zope'' [] 0 [] = Some []"
  using why_no_match_prints_nothing
          [where versions = "[]" and graph = small_graph and package_name = "''zope''"
             and eq = build_matches and fuel = 5 and depth = 0 and rt = "[]"]
  by (simp add: get_nodes_by_name_def small_graph_simps)

text \<open>Claim C9 as stated asks for a report; for \<open>zope\<close> there is no line.\<close>

theorem why_no_match_counterexample:
  "why build_matches 5 small_graph ''zope'' [] 0 [] = Some []"
  by (simp add: why_def get_nodes_by_name_def small_graph_simps)
section \<open>Properties of \<open>explain_duplicates\<close>\<close>

















subsection \<open>The text of a version\<close>

text \<open>Only the version 1.5 is written \<open>1.5\<close>.\<close>

lemma less_ten: "n < 10 \<Longrightarrow> n \<in> {0, 1, 2, 3, 4, 5, 6, 7, 8, 9 :: nat}"
  by auto

lemma digit_char_facts:
  assumes "n < 10"
  shows "digit_char n \<noteq> CHR ''.''"
    and "(digit_char n = CHR ''1'') = (n = 1)"
    and "(digit_char n = CHR ''5'') = (n = 5)"
  using less_ten [OF assms] by (auto simp: digit_char_def)

lemma string_of_nat_not_Nil: "string_of_nat n \<noteq> []"
  by (subst string_of_nat.simps) simp

lemma string_of_nat_no_dot: "CHR ''.'' \<notin> set (string_of_nat n)"
proof (induction n rule: string_of_nat.induct)
  case (1 n)
  show ?case
  proof (cases "n < 10")
    case True
    then show ?thesis
      by (subst string_of_nat.simps) (simp add: digit_char_facts(1) [symmetric])
  next
    case False
    then have "n mod 10 < 10" by simp
    with False "1.IH" show ?thesis
      by (subst string_of_nat.simps) (auto simp: digit_char_facts(1) [symmetric])
  qed
qed

lemma string_of_nat_single:
  "string_of_nat n = [c] \<Longrightarrow> n < 10 \<and> digit_char n = c"
proof (cases "n < 10")
  case True
  assume "string_of_nat n = [c]"
  with True show ?thesis by (subst (asm) string_of_nat.simps) simp
next
  case False
  assume "string_of_nat n = [c]"
  with False have "string_of_nat (n div 10) @ [digit_char (n mod 10)] = [c]"
    by (subst (asm) string_of_nat.simps) simp
  then have "string_of_nat (n div 10) = []" by simp
  with string_of_nat_not_Nil show ?thesis by blast
qed

lemma version_str_no_dot_single:
  "CHR ''.'' \<notin> set (version_str v) \<Longrightarrow> v = [] \<or> (\<exists>n. v = [n])"
  by (cases v rule: version_str.cases) auto

lemma append_dot_split:
  "CHR ''.'' \<notin> set a \<Longrightarrow> CHR ''.'' \<notin> set c \<Longrightarrow> a @ CHR ''.'' # b = c @ CHR ''.'' # d \<Longrightarrow>
   a = c \<and> b = d"
proof (induction a arbitrary: c)
  case Nil
  then show ?case by (cases c) auto
next
  case (Cons x a)
  then show ?case by (cases c) auto
qed

lemma version_str_one_five: "version_str w = ''1.5'' \<Longrightarrow> w = [1, 5]"
proof (cases w rule: version_str.cases)
  case 1
  assume "version_str w = ''1.5''"
  with 1 show ?thesis by simp
next
  case (2 n)
  assume "version_str w = ''1.5''"
  with 2 string_of_nat_no_dot [of n] show ?thesis by auto
next
  case (3 n m ms)
  assume "version_str w = ''1.5''"
  with 3 have eq: "string_of_nat n @ CHR ''.'' # version_str (m # ms) = ''1'' @ CHR ''.'' # ''5''"
    by simp
  from append_dot_split [OF string_of_nat_no_dot _ eq]
  have n: "string_of_nat n = ''1''" and rest: "version_str (m # ms) = ''5''" by simp_all
  from string_of_nat_single [OF n] have "n = 1" using digit_char_facts(2) [of n] by blast
  from rest have "CHR ''.'' \<notin> set (version_str (m # ms))" by simp
  from version_str_no_dot_single [OF this] have ms: "ms = []" by simp
  with rest have "string_of_nat m = ''5''" by simp
  from string_of_nat_single [OF this] have "m = 5" using digit_char_facts(3) [of m] by blast
  with \<open>n = 1\<close> ms 3 show ?thesis by simp
qed

subsection \<open>Two packages with two versions in use\<close>

lemmas explain_simps = explain_package_def sorted_by_version_def an_edge_def
  requires_def version_key_def parents_by_req_def specifier_filter_def verdict_def
  string_of_nat.simps digit_char_def

text \<open>
  Claim C6. First case: \<open>n\<close> is in use at 1.0, required as \<open>n==1.0\<close> by \<open>a\<close>, and at
  2.0, required as \<open>n==2.0\<close> by \<open>b\<close>. Whatever the order of the two nodes, the report
  lists 1.0 and then 2.0, each specifier matching only its own version among the two in
  use, and ends with no single version. Second case: \<open>n>=1.0\<close> is required by \<open>a\<close> and
  resolved to some version \<open>w\<close> other than 1.5, and \<open>n==1.5\<close> is required by \<open>b\<close>, with
  1.5 in the graph. The specifier \<open>>=1.0\<close> is matched against both versions in use, and
  the report ends with 1.5 usable by all consumers.
\<close>

theorem explain_duplicates_scenarios:
  "(version (node_of graph x1) = [1, 0] \<and> version (node_of graph x2) = [2, 0] \<and>
    get_incoming_install_edges (node_of graph x1) = [an_edge (requires n EQ [1, 0]) INSTALL a] \<and>
    get_incoming_install_edges (node_of graph x2) = [an_edge (requires n EQ [2, 0]) INSTALL b] \<and>
    (dep_nodes = [x1, x2] \<or> dep_nodes = [x2, x1]) \<longrightarrow>
    explain_package specifier_filter graph n dep_nodes =
      [PackageName n,
       VersionInUse [1, 0], Matches (requires n EQ [1, 0]) [''1.0''], Consumer a,
       VersionInUse [2, 0], Matches (requires n EQ [2, 0]) [''2.0''], Consumer b,
       NoSingleVersion n]) \<and>
   (version (node_of graph x1) = [1, 5] \<and> version (node_of graph x2) = w \<and>
    [1] \<le> version_key w \<and> version_key w \<noteq> [1, 5] \<and>
    get_incoming_install_edges (node_of graph x1) = [an_edge (requires n EQ [1, 5]) INSTALL b] \<and>
    get_incoming_install_edges (node_of graph x2) = [an_edge (requires n GE [1, 0]) INSTALL a] \<and>
    (dep_nodes = [x1, x2] \<or> dep_nodes = [x2, x1]) \<longrightarrow>
    Matches (requires n GE [1, 0])
        (map (\<lambda>x. version_str (version (node_of graph x))) dep_nodes)
      \<in> set (explain_package specifier_filter graph n dep_nodes) \<and>
    last (explain_package specifier_filter graph n dep_nodes) = UsableByAll n ''1.5'')"
proof (rule conjI; rule impI)
  assume "version (node_of graph x1) = [1, 0] \<and> version (node_of graph x2) = [2, 0] \<and>
    get_incoming_install_edges (node_of graph x1) = [an_edge (requires n EQ [1, 0]) INSTALL a] \<and>
    get_incoming_install_edges (node_of graph x2) = [an_edge (requires n EQ [2, 0]) INSTALL b] \<and>
    (dep_nodes = [x1, x2] \<or> dep_nodes = [x2, x1])"
  then show "explain_package specifier_filter graph n dep_nodes =
      [PackageName n,
       VersionInUse [1, 0], Matches (requires n EQ [1, 0]) [''1.0''], Consumer a,
       VersionInUse [2, 0], Matches (requires n EQ [2, 0]) [''2.0''], Consumer b,
       NoSingleVersion n]"
    by (elim conjE disjE) (simp_all add: explain_simps)
next
  assume h: "version (node_of graph x1) = [1, 5] \<and> version (node_of graph x2) = w \<and>
    [1] \<le> version_key w \<and> version_key w \<noteq> [1, 5] \<and>
    get_incoming_install_edges (node_of graph x1) = [an_edge (requires n EQ [1, 5]) INSTALL b] \<and>
    get_incoming_install_edges (node_of graph x2) = [an_edge (requires n GE [1, 0]) INSTALL a] \<and>
    (dep_nodes = [x1, x2] \<or> dep_nodes = [x2, x1])"
  then have k: "version_key (version (node_of graph x1)) = [1, 5]"
      "version_key [Suc 0, 0] = [1]" "version_key [Suc 0, 5] = [1, 5]"
    by (simp_all add: version_key_def)
  from h have "w \<noteq> [1, 5]" by (auto simp: version_key_def)
  with version_str_one_five [of w] have str: "version_str w \<noteq> ''1.5''" by blast
  from h str show "Matches (requires n GE [1, 0])
        (map (\<lambda>x. version_str (version (node_of graph x))) dep_nodes)
      \<in> set (explain_package specifier_filter graph n dep_nodes) \<and>
    last (explain_package specifier_filter graph n dep_nodes) = UsableByAll n ''1.5''"
    apply (elim conjE disjE)
     apply (cases "[1, 5] \<le> version_key w")
      apply (simp_all add: explain_package_def sorted_by_version_def an_edge_def
        requires_def parents_by_req_def k
        specifier_filter_def verdict_def 
        string_of_nat.simps digit_char_def)
    done
qed


text \<open>Both cases in \<open>conflict_graph\<close>: \<open>x\<close> for the first, \<open>y\<close> for the second.\<close>

theorem explain_duplicates_scenarios_witness:
  "get_incoming_install_edges (node_of conflict_graph ''x==1.0'') =
     [an_edge (requires ''x'' EQ [1, 0]) INSTALL ''a==1''] \<and>
   get_incoming_install_edges (node_of conflict_graph ''y==2.0'') =
     [an_edge (requires ''y'' GE [1, 0]) INSTALL ''a==1''] \<and>
   explain_duplicates specifier_filter conflict_graph
     [(''y'', [''y==2.0'', ''y==1.5'']), (''x'', [''x==1.0'', ''x==2.0'']), (''a'', [''a==1''])] =
     [PackageName ''x'',
      VersionInUse [1, 0], Matches (requires ''x'' EQ [1, 0]) [''1.0''], Consumer ''a==1'',
      VersionInUse [2, 0], Matches (requires ''x'' EQ [2, 0]) [''2.0''], Consumer ''b==1'',
      NoSingleVersion ''x'',
      PackageName ''y'',
      VersionInUse [1, 5], Matches (requires ''y'' EQ [1, 5]) [''1.5''], Consumer ''b==1'',
      VersionInUse [2, 0], Matches (requires ''y'' GE [1, 0]) [''2.0'', ''1.5''], Consumer ''a==1'',
      UsableByAll ''y'' ''1.5'']"
  using explain_duplicates_scenarios [of conflict_graph "''x==1.0''" "''x==2.0''" "''x''"
          "''a==1''" "''b==1''" "[''x==1.0'', ''x==2.0'']"]
        explain_duplicates_scenarios [of conflict_graph "''y==1.5''" "''y==2.0''" "''y''"
          "''a==1''" "''b==1''" "[''y==2.0'', ''y==1.5'']" "[2, 0]"]
  by (simp add: explain_duplicates_def explain_package_def sorted_by_version_def
        conflict_graph_def a_node_def an_edge_def requires_def version_key_def
        get_incoming_install_edges_def parents_by_req_def specifier_filter_def verdict_def
        string_of_nat.simps digit_char_def)

section \<open>Properties of the build plan\<close>

lemma dependency_names_set:
  "set (dependency_names ds names) = set names \<union> target_name ` set ds"
  by (induction ds arbitrary: names) auto

lemma dependency_names_distinct:
  "distinct names \<Longrightarrow> distinct (dependency_names ds names)"
  by (induction ds arbitrary: names) auto

lemma format_targets:
  "format m seen = (rs, seen') \<Longrightarrow>
     distinct (map rule_target rs) \<and> set (map rule_target rs) \<inter> seen = {} \<and>
     seen' = seen \<union> set (map rule_target rs)"
  "format_all ms seen = (rs, seen') \<Longrightarrow>
     distinct (map rule_target rs) \<and> set (map rule_target rs) \<inter> seen = {} \<and>
     seen' = seen \<union> set (map rule_target rs)"
proof (induction m seen and ms seen arbitrary: rs seen' and rs seen'
       rule: format_format_all.induct)
  case (1 target dn dv cmd deps seen)
  show ?case
  proof (cases "target \<in> seen")
    case True
    with "1.prems" show ?thesis by simp
  next
    case False
    obtain rs1 s1 where sub: "format_all deps (insert target seen) = (rs1, s1)"
      by (cases "format_all deps (insert target seen)")
    with False "1.prems" have rs: "rs = Rule target (dependency_names deps []) cmd # rs1"
      and s: "seen' = s1" by simp_all
    from "1.IH" [OF False sub] False show ?thesis
      unfolding rs s by auto
  qed
next
  case (2 seen)
  then show ?case by simp
next
  case (3 x xs seen)
  obtain rs1 s1 where a: "format x seen = (rs1, s1)" by (cases "format x seen")
  obtain rs2 s2 where b: "format_all xs s1 = (rs2, s2)" by (cases "format_all xs s1")
  from "3.prems" a b have rs: "rs = rs1 @ rs2" and s: "seen' = s2" by simp_all
  from "3.IH"(1) [OF a] "3.IH"(2) [OF a [symmetric] refl b] show ?case
    unfolding rs s by auto
qed

lemma subnodes_self: "m \<in> subnodes m"
  by (cases m) simp

lemma subnodes_unfold:
  "subnodes m = insert m (\<Union>d \<in> set (dependencies m). subnodes d)"
  by (cases m) simp

lemma subnodes_dep: "d \<in> set (dependencies m) \<Longrightarrow> x \<in> subnodes d \<Longrightarrow> x \<in> subnodes m"
  by (subst subnodes_unfold) auto

lemma subnodes_trans: "d \<in> subnodes m \<Longrightarrow> x \<in> subnodes d \<Longrightarrow> x \<in> subnodes m"
proof (induction m rule: subnodes.induct)
  case (1 target dn dv cmd deps)
  from "1.prems"(1) consider "d = MakeNode target dn dv cmd deps"
    | y where "y \<in> set deps" "d \<in> subnodes y"
    by auto
  then show ?case
  proof cases
    case 1
    with "1.prems"(2) show ?thesis by simp
  next
    case 2
    from "1.IH" [OF 2 "1.prems"(2)] 2(1) show ?thesis by auto
  qed
qed

lemma dependency_smaller: "d \<in> set (dependencies m) \<Longrightarrow> size d < size m"
  by (cases m) (auto simp: less_Suc_eq_le intro: size_list_estimation')

lemma format_first:
  "target_name m \<notin> seen \<Longrightarrow> \<exists>rs' seen'. format m seen = (block m # rs', seen')"
  by (cases m) (simp add: block_def split: prod.splits)

lemma format_rules:
  "format m seen = (rs, seen') \<Longrightarrow> r \<in> set rs \<Longrightarrow> \<exists>d \<in> subnodes m. r = block d"
  "format_all ms seen = (rs, seen') \<Longrightarrow> r \<in> set rs \<Longrightarrow>
     \<exists>m \<in> set ms. \<exists>d \<in> subnodes m. r = block d"
proof (induction m seen and ms seen arbitrary: rs seen' and rs seen'
       rule: format_format_all.induct)
  case (1 target dn dv cmd deps seen)
  let ?m = "MakeNode target dn dv cmd deps"
  show ?case
  proof (cases "target \<in> seen")
    case True
    with "1.prems" show ?thesis by simp
  next
    case False
    obtain rs1 s1 where sub: "format_all deps (insert target seen) = (rs1, s1)"
      by (cases "format_all deps (insert target seen)")
    with False "1.prems" have rs: "rs = Rule target (dependency_names deps []) cmd # rs1"
      by simp
    from "1.prems"(2) rs consider "r = Rule target (dependency_names deps []) cmd" | "r \<in> set rs1"
      by auto
    then show ?thesis
    proof cases
      case 1
      then have "r = block ?m" by (simp add: block_def)
      with subnodes_self [of ?m] show ?thesis by blast
    next
      case 2
      from "1.IH" [OF False sub 2] obtain x d where
        "x \<in> set deps" "d \<in> subnodes x" "r = block d"
        by blast
      with subnodes_dep [of x ?m d] show ?thesis by auto
    qed
  qed
next
  case (2 seen)
  then show ?case by simp
next
  case (3 x xs seen)
  obtain rs1 s1 where a: "format x seen = (rs1, s1)" by (cases "format x seen")
  obtain rs2 s2 where b: "format_all xs s1 = (rs2, s2)" by (cases "format_all xs s1")
  from "3.prems" a b have "r \<in> set rs1 \<or> r \<in> set rs2" by auto
  then show ?case
  proof
    assume "r \<in> set rs1"
    from "3.IH"(1) [OF a this] show ?thesis by simp
  next
    assume "r \<in> set rs2"
    from "3.IH"(2) [OF a [symmetric] refl b this] show ?thesis by auto
  qed
qed

lemma written_mono: "written S d \<Longrightarrow> S \<subseteq> S' \<Longrightarrow> written S' d"
  by (auto simp: written_def)

lemma format_covers:
  assumes inj: "inj_on target_name (subnodes whole)"
  shows
  "format m S = (rs, S') \<Longrightarrow> m \<in> subnodes whole \<Longrightarrow> A \<subseteq> subnodes whole \<Longrightarrow>
     (\<forall>a \<in> A. size m < size a) \<Longrightarrow> settled whole A S \<Longrightarrow>
     written S' m \<and> settled whole A S'"
  "format_all ms S = (rs, S') \<Longrightarrow> set ms \<subseteq> subnodes whole \<Longrightarrow> A \<subseteq> subnodes whole \<Longrightarrow>
     (\<forall>a \<in> A. \<forall>m \<in> set ms. size m < size a) \<Longrightarrow> settled whole A S \<Longrightarrow>
     (\<forall>m \<in> set ms. written S' m) \<and> settled whole A S'"
proof (induction m S and ms S arbitrary: rs S' A and rs S' A
       rule: format_format_all.induct)
  case (1 target dn dv cmd deps S)
  let ?m = "MakeNode target dn dv cmd deps"
  note m_in = "1.prems"(2) and A_sub = "1.prems"(3) and A_big = "1.prems"(4)
    and settled = "1.prems"(5)
  show ?case
  proof (cases "target \<in> S")
    case True
    with "1.prems"(1) have S': "S' = S" by simp
    from settled True consider a where "a \<in> A" "target_name a = target"
      | d where "d \<in> subnodes whole" "target_name d = target" "written S d"
      unfolding settled_def by blast
    then have "written S ?m"
    proof cases
      case 1
      with A_sub have "a \<in> subnodes whole" by blast
      with inj m_in 1(2) have "a = ?m"
        using inj_onD [of target_name "subnodes whole" a ?m] by simp
      with A_big 1(1) show ?thesis by auto
    next
      case 2
      with inj m_in have "d = ?m"
        using inj_onD [of target_name "subnodes whole" d ?m] by simp
      with 2(3) show ?thesis by simp
    qed
    with settled show ?thesis by (simp add: S')
  next
    case False
    obtain rs1 where sub: "format_all deps (insert target S) = (rs1, S')"
      using "1.prems"(1) False by (cases "format_all deps (insert target S)") simp
    have deps_in: "set deps \<subseteq> subnodes whole"
      using m_in subnodes_trans [of ?m whole] subnodes_dep [of _ ?m] subnodes_self
      by fastforce
    have A'_sub: "insert ?m A \<subseteq> subnodes whole"
      using m_in A_sub by simp
    have smaller: "\<forall>a \<in> insert ?m A. \<forall>x \<in> set deps. size x < size a"
    proof (intro ballI)
      fix a x assume a: "a \<in> insert ?m A" and x: "x \<in> set deps"
      from x have "size x < size ?m" by (intro dependency_smaller) simp
      with a A_big show "size x < size a" by (auto intro: less_trans)
    qed
    have start: "settled whole (insert ?m A) (insert target S)"
      unfolding settled_def
    proof (intro ballI)
      fix t assume "t \<in> insert target S"
      then consider "t = target" | "t \<in> S" by blast
      then show "(\<exists>a \<in> insert ?m A. target_name a = t) \<or>
                 (\<exists>d \<in> subnodes whole. target_name d = t \<and> written (insert target S) d)"
      proof cases
        case 1
        then show ?thesis by auto
      next
        case 2
        with settled have "(\<exists>a \<in> A. target_name a = t) \<or>
                 (\<exists>d \<in> subnodes whole. target_name d = t \<and> written S d)"
          unfolding settled_def by blast
        then show ?thesis
          using written_mono [of S _ "insert target S"] by blast
      qed
    qed
    from "1.IH" [OF False sub deps_in A'_sub smaller start]
    have deps_written: "\<forall>x \<in> set deps. written S' x"
      and end_settled: "settled whole (insert ?m A) S'" by simp_all
    from format_targets(2) [OF sub] have "target \<in> S'" by auto
    with deps_written have w: "written S' ?m"
      by (auto simp: written_def)
    have "settled whole A S'"
      unfolding settled_def
    proof (intro ballI)
      fix t assume "t \<in> S'"
      with end_settled consider a where "a \<in> insert ?m A" "target_name a = t"
        | d where "d \<in> subnodes whole" "target_name d = t" "written S' d"
        unfolding settled_def by blast
      then show "(\<exists>a \<in> A. target_name a = t) \<or>
                 (\<exists>d \<in> subnodes whole. target_name d = t \<and> written S' d)"
      proof cases
        case 1
        show ?thesis
        proof (cases "a = ?m")
          case True
          with 1 w m_in show ?thesis by blast
        next
          case False
          with 1 show ?thesis by blast
        qed
      next
        case 2
        then show ?thesis by blast
      qed
    qed
    with w show ?thesis by simp
  qed
next
  case (2 S)
  then show ?case by simp
next
  case (3 x xs S)
  obtain rs1 S1 where a: "format x S = (rs1, S1)" by (cases "format x S")
  obtain rs2 where b: "format_all xs S1 = (rs2, S')"
    using "3.prems"(1) a by (cases "format_all xs S1") simp
  from "3.prems" have x_in: "x \<in> subnodes whole" and xs_in: "set xs \<subseteq> subnodes whole"
    and x_small: "\<forall>a \<in> A. size x < size a"
    and xs_small: "\<forall>a \<in> A. \<forall>m \<in> set xs. size m < size a"
    by simp_all
  from "3.IH"(1) [OF a x_in "3.prems"(3) x_small "3.prems"(5)]
  have wx: "written S1 x" and s1: "settled whole A S1" by simp_all
  from "3.IH"(2) [OF a [symmetric] refl b xs_in "3.prems"(3) xs_small s1]
  have wxs: "\<forall>m \<in> set xs. written S' m" and s2: "settled whole A S'" by simp_all
  from format_targets(2) [OF b] have "S1 \<subseteq> S'" by auto
  with wx have "written S' x" by (rule written_mono)
  with wxs s2 show ?case by simp
qed

lemma format_complete:
  assumes inj: "inj_on target_name (subnodes m)"
    and run: "format m {} = (rs, seen')"
  shows "set rs = block ` subnodes m"
proof
  show "set rs \<subseteq> block ` subnodes m"
    using format_rules(1) [OF run] by blast
  have "settled m {} {}" by (simp add: settled_def)
  from format_covers(1) [OF inj run subnodes_self _ _ this]
  have w: "written seen' m" by simp
  from format_targets(1) [OF run] have seen': "seen' = rule_target ` set rs" by simp
  show "block ` subnodes m \<subseteq> set rs"
  proof
    fix b assume "b \<in> block ` subnodes m"
    then obtain d where d: "d \<in> subnodes m" and b: "b = block d" by blast
    from w d have "target_name d \<in> seen'" by (simp add: written_def)
    with seen' obtain r where r: "r \<in> set rs" and t: "rule_target r = target_name d" by auto
    from format_rules(1) [OF run r] obtain d' where d': "d' \<in> subnodes m" and rd: "r = block d'"
      by blast
    from t rd have "target_name d' = target_name d" by (simp add: block_def)
    with inj d d' have "d' = d"
      using inj_onD [of target_name "subnodes m" d' d] by simp
    with r rd b show "b \<in> set rs" by simp
  qed
qed

text \<open>
  Claim C7. \<open>format\<close> writes no rule block for a target name that is in \<open>seen\<close>, and
  no two blocks for the same target name; \<open>seen\<close> grows by exactly the targets written.
  Every block written is the block of a node of the tree. A node whose target name is not
  in \<open>seen\<close> gets its block, which is written first; and when \<open>format\<close> starts from the
  empty set, as in \<open>to_makefile\<close>, on a tree where nodes of the same target name are the
  same node, the blocks written are exactly the blocks of the nodes of the tree. The block
  of a node lists the target name of every dependency of the node, whether or not that
  dependency's own block is written again.
\<close>

theorem format_emits_each_target_once:
  "format m seen = (rs, seen') \<Longrightarrow>
     distinct (map rule_target rs) \<and>
     set (map rule_target rs) \<inter> seen = {} \<and>
     seen' = seen \<union> set (map rule_target rs) \<and>
     set rs \<subseteq> block ` subnodes m \<and>
     (target_name m \<notin> seen \<longrightarrow> rs \<noteq> [] \<and> hd rs = block m) \<and>
     (seen = {} \<and> inj_on target_name (subnodes m) \<longrightarrow> set rs = block ` subnodes m) \<and>
     (\<forall>d. rule_target (block d) = target_name d \<and> rule_command (block d) = command d \<and>
          distinct (rule_dependencies (block d)) \<and>
          set (rule_dependencies (block d)) = target_name ` set (dependencies d))"
proof -
  assume run: "format m seen = (rs, seen')"
  have sub: "set rs \<subseteq> block ` subnodes m"
    using format_rules(1) [OF run] by blast
  have first: "rs \<noteq> [] \<and> hd rs = block m" if "target_name m \<notin> seen"
    using format_first [OF that] run by auto
  have all: "set rs = block ` subnodes m" if "seen = {}" "inj_on target_name (subnodes m)"
    using format_complete [OF that(2)] run that(1) by simp
  have blk: "rule_target (block d) = target_name d \<and> rule_command (block d) = command d \<and>
          distinct (rule_dependencies (block d)) \<and>
          set (rule_dependencies (block d)) = target_name ` set (dependencies d)" for d
    by (simp add: block_def dependency_names_set dependency_names_distinct)
  from format_targets(1) [OF run] sub first all blk show ?thesis
    by blast
qed


lemmas make_simps = to_makefile_def diamond_graph_def small_graph_def a_node_def an_edge_def
  ROOT_def Let_def string_of_nat.simps digit_char_def eval_nat_numeral build_matches_def

lemma diamond_node_inverse:
  "x \<in> subnodes diamond_top \<Longrightarrow> diamond_node (target_name x) = x"
  apply (simp add: diamond_top_def)
  apply (elim disjE)
  apply (simp_all add: diamond_node_def diamond_top_def Let_def)
  done

lemma diamond_top_inj: "inj_on target_name (subnodes diamond_top)"
  by (rule inj_on_inverseI [where g = diamond_node]) (rule diamond_node_inverse)

text \<open>The diamond: the makefile of \<open>diamond_graph\<close> is the text of \<open>diamond_top\<close>. The
  blocks of \<open>a__1\<close> and of \<open>b__1\<close> and of their stages are written, the block of
  \<open>c__1\<close> is written once, below \<open>a__1\<close>, and both install stages list \<open>c__1\<close>.\<close>

theorem format_emits_each_target_once_witness:
  "top_dependencies build_matches 3 diamond_graph (children (node_of diamond_graph ROOT)) =
     Some (dependencies diamond_top) \<and>
   map (\<lambda>r. (rule_target r, rule_dependencies r)) (fst (format diamond_top {})) =
   [(''all'', [''a__1'', ''b__1'']),
    (''a__1'', [''a__1__wheel'', ''a__1__install'']),
    (''a__1__wheel'', []),
    (''a__1__install'', [''c__1'']),
    (''c__1'', [''c__1__wheel'']),
    (''c__1__wheel'', []),
    (''b__1'', [''b__1__wheel'', ''b__1__install'']),
    (''b__1__wheel'', []),
    (''b__1__install'', [''c__1''])] \<and>
   hd (fst (format diamond_top {})) = block diamond_top \<and>
   set (fst (format diamond_top {})) = block ` subnodes diamond_top"
proof -
  have a: "top_dependencies build_matches 3 diamond_graph (children (node_of diamond_graph ROOT)) =
     Some (dependencies diamond_top)"
    by (simp add: make_simps diamond_top_def)
  have b: "map (\<lambda>r. (rule_target r, rule_dependencies r)) (fst (format diamond_top {})) =
   [(''all'', [''a__1'', ''b__1'']),
    (''a__1'', [''a__1__wheel'', ''a__1__install'']),
    (''a__1__wheel'', []),
    (''a__1__install'', [''c__1'']),
    (''c__1'', [''c__1__wheel'']),
    (''c__1__wheel'', []),
    (''b__1'', [''b__1__wheel'', ''b__1__install'']),
    (''b__1__wheel'', []),
    (''b__1__install'', [''c__1''])]"
    by (simp add: diamond_top_def)
  have c: "target_name diamond_top \<notin> {}" by simp
  from format_emits_each_target_once
    [of diamond_top "{}" "fst (format diamond_top {})" "snd (format diamond_top {})"]
    diamond_top_inj c
  have "hd (fst (format diamond_top {})) = block diamond_top \<and>
        set (fst (format diamond_top {})) = block ` subnodes diamond_top"
    by simp
  with a b show ?thesis by simp
qed


subsection \<open>The stages of a node\<close>





text \<open>A larger bound on the nesting does not change a result.\<close>

lemma from_graph_node_more_fuel:
  "from_graph_node eq fuel g node = Some m \<Longrightarrow> from_graph_node eq (Suc fuel) g node = Some m"
  "from_children eq fuel g es b i = Some bi \<Longrightarrow> from_children eq (Suc fuel) g es b i = Some bi"
proof (induction eq fuel g node and eq fuel g es b i arbitrary: m and bi rule: from_graph_node_from_children.induct)
  case (1 eq graph node)
  then show ?case by simp
next
  case (2 eq fuel graph node)
  from "2.prems" obtain bi where
    c: "from_children eq fuel graph (children (node_of graph node)) [] [] = Some bi"
    by (cases "from_children eq fuel graph (children (node_of graph node)) [] []") (simp_all add: Let_def)
  from "2.IH" [OF refl refl refl c] have
    "from_children eq (Suc fuel) graph (children (node_of graph node)) [] [] = Some bi" .
  with "2.prems" c show ?case
    by (simp add: Let_def)
next
  case (3 eq fuel graph build_deps install_deps)
  then show ?case by simp
next
  case (4 eq fuel graph child_edge rest build_deps install_deps)
  from "4.prems" obtain c where
    c: "from_graph_node eq fuel graph (destination_node child_edge) = Some c"
    by (cases "from_graph_node eq fuel graph (destination_node child_edge)") simp_all
  note c' = "4.IH"(1) [OF c]
  show ?case
  proof (cases "eq (req_type child_edge) BUILD")
    case True
    with "4.prems" c have "from_children eq fuel graph rest (build_deps @ [c]) install_deps = Some bi"
      by simp
    from "4.IH"(2) [OF c True this] c' True show ?thesis by simp
  next
    case False
    with "4.prems" c have "from_children eq fuel graph rest build_deps (install_deps @ [c]) = Some bi"
      by simp
    from "4.IH"(3) [OF c False this] c' False show ?thesis by simp
  qed
qed





section \<open>Properties of \<open>migrate_graph\<close>\<close>

lemma add_tuples_stack:
  "add_tuples P k ts g stack = Inr (g', stack') \<Longrightarrow> stack' = rev (map child_key ts) @ stack"
proof (induction ts arbitrary: g stack)
  case Nil
  then show ?case by simp
next
  case (Cons t ts)
  obtain rt rn rv rq where t: "t = (rt, rn, rv, rq)" by (cases t)
  from Cons.prems obtain g1 where
    "add_tuples P k ts g1 (child_key t # stack) = Inr (g', stack')"
    unfolding t
    by (auto simp: Let_def split: prod.splits option.splits if_splits)
  from Cons.IH [OF this] show ?case by simp
qed

lemma entries_child_keys:
  "t \<in> set (entries old k) \<Longrightarrow> child_key t \<in> child_keys old"
proof -
  assume t: "t \<in> set (entries old k)"
  then obtain ts where "map_of old k = Some ts" and "t \<in> set ts"
    by (cases "map_of old k") (simp_all add: entries_def)
  then have "(k, ts) \<in> set old" by (simp add: map_of_SomeD)
  with \<open>t \<in> set ts\<close> show ?thesis
    unfolding child_keys_def by blast
qed

lemma finite_child_keys: "finite (child_keys old)"
  by (auto simp: child_keys_def)

text \<open>
  Induction along the run of the loop. Every key on the stack is \<open>ROOT\<close> or a key that
  some tuple of the file pushes, so it lies in a finite set \<open>K\<close>; a round either pops a
  visited key, or adds a key of \<open>K\<close> to \<open>visited\<close>.
\<close>

lemma migrate_induct:
  assumes K: "child_keys old \<subseteq> K" "finite K" "set stack \<subseteq> K"
    and empty: "\<And>visited. Q [] visited"
    and skip: "\<And>k rest visited. k \<in> visited \<Longrightarrow> Q rest visited \<Longrightarrow> Q (k # rest) visited"
    and visit: "\<And>k rest visited. k \<notin> visited \<Longrightarrow> k \<in> K \<Longrightarrow> set rest \<subseteq> K \<Longrightarrow>
                  Q (rev (map child_key (entries old k)) @ rest) (insert k visited) \<Longrightarrow>
                  Q (k # rest) visited"
  shows "Q stack visited"
proof -
  have "set (fst sv) \<subseteq> K \<Longrightarrow> Q (fst sv) (snd sv)" for sv :: "key list \<times> key set"
  proof (induction sv rule: wf_induct_rule
            [OF wf_measures [of "[\<lambda>sv. card (K - snd sv), \<lambda>sv. length (fst sv)]"]])
    case (1 sv)
    obtain stack visited where sv: "sv = (stack, visited)" by (cases sv)
    show ?case
    proof (cases stack)
      case Nil
      then show ?thesis by (simp add: sv empty)
    next
      case (Cons k rest)
      from "1.prems" have kK: "k \<in> K" and rK: "set rest \<subseteq> K"
        by (simp_all add: sv Cons)
      show ?thesis
      proof (cases "k \<in> visited")
        case True
        have "Q (fst (rest, visited)) (snd (rest, visited))"
          by (rule "1.IH") (simp_all add: sv Cons rK)
        with True show ?thesis by (simp add: sv Cons skip)
      next
        case False
        let ?stack = "rev (map child_key (entries old k)) @ rest"
        have sub: "set ?stack \<subseteq> K"
          using rK K(1) entries_child_keys [of _ old k] by auto
        have "K - insert k visited \<subset> K - visited"
          using kK False by auto
        then have less: "card (K - insert k visited) < card (K - visited)"
          using K(2) by (intro psubset_card_mono) auto
        have "Q (fst (?stack, insert k visited)) (snd (?stack, insert k visited))"
          by (rule "1.IH") (use less sub in \<open>simp_all add: sv\<close>)
        with False kK rK show ?thesis by (simp add: sv Cons visit)
      qed
    qed
  qed
  from this [of "(stack, visited)"] K(3) show ?thesis by simp
qed

lemma migrate_loop_returns:
  assumes "set stack \<subseteq> insert ROOT (child_keys old)"
  shows "\<forall>g processed. \<exists>new res.
           migrate_loop P old stack visited g processed = Some (processed @ new, res) \<and>
           distinct new \<and> set new \<inter> visited = {}"
proof (rule migrate_induct [where old = old and K = "insert ROOT (child_keys old)"
                              and stack = stack and visited = visited])
  show "child_keys old \<subseteq> insert ROOT (child_keys old)" by auto
  show "finite (insert ROOT (child_keys old))" by (simp add: finite_child_keys)
  show "set stack \<subseteq> insert ROOT (child_keys old)" by (rule assms)
next
  fix visited
  show "\<forall>g processed. \<exists>new res.
           migrate_loop P old [] visited g processed = Some (processed @ new, res) \<and>
           distinct new \<and> set new \<inter> visited = {}"
    by (subst migrate_loop.simps) simp
next
  fix k rest visited
  assume "k \<in> visited"
    and "\<forall>g processed. \<exists>new res.
           migrate_loop P old rest visited g processed = Some (processed @ new, res) \<and>
           distinct new \<and> set new \<inter> visited = {}"
  then show "\<forall>g processed. \<exists>new res.
           migrate_loop P old (k # rest) visited g processed = Some (processed @ new, res) \<and>
           distinct new \<and> set new \<inter> visited = {}"
    by (subst migrate_loop.simps) simp
next
  fix k rest visited
  assume k: "k \<notin> visited"
    and ih: "\<forall>g processed. \<exists>new res.
           migrate_loop P old (rev (map child_key (entries old k)) @ rest) (insert k visited)
             g processed = Some (processed @ new, res) \<and>
           distinct new \<and> set new \<inter> insert k visited = {}"
  show "\<forall>g processed. \<exists>new res.
           migrate_loop P old (k # rest) visited g processed = Some (processed @ new, res) \<and>
           distinct new \<and> set new \<inter> visited = {}"
  proof (intro allI)
    fix g processed
    show "\<exists>new res.
           migrate_loop P old (k # rest) visited g processed = Some (processed @ new, res) \<and>
           distinct new \<and> set new \<inter> visited = {}"
    proof (cases "add_tuples P k (entries old k) g rest")
      case (Inl e)
      with k have "migrate_loop P old (k # rest) visited g processed =
                     Some (processed @ [k], Inl e)"
        by (subst migrate_loop.simps) simp
      with k show ?thesis by auto
    next
      case (Inr r)
      obtain g' stack' where r: "r = (g', stack')" by (cases r)
      from add_tuples_stack [OF Inr [unfolded r]]
      have stack': "stack' = rev (map child_key (entries old k)) @ rest" .
      from ih obtain new res where
        run: "migrate_loop P old stack' (insert k visited) g' (processed @ [k]) =
                Some ((processed @ [k]) @ new, res)"
        and new: "distinct new" "set new \<inter> insert k visited = {}"
        unfolding stack' by blast
      from k Inr r run have "migrate_loop P old (k # rest) visited g processed =
                     Some (processed @ (k # new), res)"
        by (subst migrate_loop.simps) simp
      moreover from new k have "distinct (k # new)" "set (k # new) \<inter> visited = {}"
        by auto
      ultimately show ?thesis by blast
    qed
  qed
qed

text \<open>
  Claim C2. On every legacy file and with any parsers, the traversal from \<open>ROOT\<close> ends,
  with the graph or with the error of a tuple that does not parse, and no key is processed
  twice, however often it is pushed.
\<close>

theorem migrate_graph_terminates:
  "\<exists>processed res. migrate_graph P old_graph = Some (processed, res) \<and> distinct processed"
  using migrate_loop_returns [of "[ROOT]" old_graph P "{}"]
  unfolding migrate_graph_def by fastforce


lemmas migrate_simps = migrate_graph_def legacy_chain_def simple_packaging_def entries_def
  child_key_def ROOT_def empty_graph_def requirement_type_of_def digit_value_def

text \<open>In \<open>legacy_chain\<close> the key \<open>a==1\<close> is pushed by \<open>ROOT\<close> and again by
  \<open>b==2\<close>; it is processed once.\<close>

theorem migrate_graph_terminates_witness:
  "map_option fst (migrate_graph simple_packaging legacy_chain) = Some [ROOT, ''a==1'', ''b==2'']"
  using migrate_graph_terminates [of simple_packaging legacy_chain]
  by (simp add: migrate_loop.simps migrate_simps)

lemma stack_reachable:
  "k \<in> reachable old \<Longrightarrow> set rest \<subseteq> reachable old \<Longrightarrow>
   set (rev (map child_key (entries old k)) @ rest) \<subseteq> reachable old"
  by (auto intro: reachable.step)

lemma migrate_loop_agree:
  assumes agree: "\<And>k. k \<in> reachable old \<Longrightarrow> entries old' k = entries old k"
    and K: "set stack \<subseteq> insert ROOT (child_keys old)"
  shows "set stack \<subseteq> reachable old \<longrightarrow>
         (\<forall>g processed. migrate_loop P old' stack visited g processed =
                          migrate_loop P old stack visited g processed)"
proof (rule migrate_induct [where old = old and K = "insert ROOT (child_keys old)"
                              and stack = stack and visited = visited])
  show "child_keys old \<subseteq> insert ROOT (child_keys old)" by auto
  show "finite (insert ROOT (child_keys old))" by (simp add: finite_child_keys)
  show "set stack \<subseteq> insert ROOT (child_keys old)" by (rule K)
next
  fix visited
  show "set [] \<subseteq> reachable old \<longrightarrow>
         (\<forall>g processed. migrate_loop P old' [] visited g processed =
                          migrate_loop P old [] visited g processed)"
    by (simp add: migrate_loop.simps [of _ _ "[]"])
next
  fix k rest visited
  assume "k \<in> visited"
    and "set rest \<subseteq> reachable old \<longrightarrow>
         (\<forall>g processed. migrate_loop P old' rest visited g processed =
                          migrate_loop P old rest visited g processed)"
  then show "set (k # rest) \<subseteq> reachable old \<longrightarrow>
         (\<forall>g processed. migrate_loop P old' (k # rest) visited g processed =
                          migrate_loop P old (k # rest) visited g processed)"
    by (simp add: migrate_loop.simps [of _ _ "k # rest"])
next
  fix k rest visited
  assume k: "k \<notin> visited"
    and ih: "set (rev (map child_key (entries old k)) @ rest) \<subseteq> reachable old \<longrightarrow>
         (\<forall>g processed.
             migrate_loop P old' (rev (map child_key (entries old k)) @ rest) (insert k visited)
               g processed =
             migrate_loop P old (rev (map child_key (entries old k)) @ rest) (insert k visited)
               g processed)"
  show "set (k # rest) \<subseteq> reachable old \<longrightarrow>
         (\<forall>g processed. migrate_loop P old' (k # rest) visited g processed =
                          migrate_loop P old (k # rest) visited g processed)"
  proof (intro impI allI)
    fix g processed
    assume "set (k # rest) \<subseteq> reachable old"
    then have kr: "k \<in> reachable old" and rr: "set rest \<subseteq> reachable old" by simp_all
    note e = agree [OF kr]
    note next_eq = ih [rule_format, OF stack_reachable [OF kr rr]]
    show "migrate_loop P old' (k # rest) visited g processed =
          migrate_loop P old (k # rest) visited g processed"
    proof (cases "add_tuples P k (entries old k) g rest")
      case (Inl err)
      with k e show ?thesis
        by (simp add: migrate_loop.simps [of _ _ "k # rest"])
    next
      case (Inr r)
      obtain g' stack' where r: "r = (g', stack')" by (cases r)
      from add_tuples_stack [OF Inr [unfolded r]]
      have stack': "stack' = rev (map child_key (entries old k)) @ rest" .
      from k e Inr r next_eq show ?thesis
        by (simp add: migrate_loop.simps [of _ _ "k # rest"] stack')
    qed
  qed
qed

lemma migrate_loop_reachable:
  assumes K: "set stack \<subseteq> insert ROOT (child_keys old)"
  shows "set stack \<subseteq> reachable old \<longrightarrow>
         (\<forall>g processed out res. migrate_loop P old stack visited g processed = Some (out, res) \<longrightarrow>
            set out \<subseteq> set processed \<union> reachable old)"
proof (rule migrate_induct [where old = old and K = "insert ROOT (child_keys old)"
                              and stack = stack and visited = visited])
  show "child_keys old \<subseteq> insert ROOT (child_keys old)" by auto
  show "finite (insert ROOT (child_keys old))" by (simp add: finite_child_keys)
  show "set stack \<subseteq> insert ROOT (child_keys old)" by (rule K)
next
  fix visited
  show "set [] \<subseteq> reachable old \<longrightarrow>
         (\<forall>g processed out res. migrate_loop P old [] visited g processed = Some (out, res) \<longrightarrow>
            set out \<subseteq> set processed \<union> reachable old)"
    by (auto simp: migrate_loop.simps [of _ _ "[]"])
next
  fix k rest visited
  assume "k \<in> visited"
    and "set rest \<subseteq> reachable old \<longrightarrow>
         (\<forall>g processed out res. migrate_loop P old rest visited g processed = Some (out, res) \<longrightarrow>
            set out \<subseteq> set processed \<union> reachable old)"
  then show "set (k # rest) \<subseteq> reachable old \<longrightarrow>
         (\<forall>g processed out res. migrate_loop P old (k # rest) visited g processed = Some (out, res) \<longrightarrow>
            set out \<subseteq> set processed \<union> reachable old)"
    by (simp add: migrate_loop.simps [of _ _ "k # rest"])
next
  fix k rest visited
  assume k: "k \<notin> visited"
    and ih: "set (rev (map child_key (entries old k)) @ rest) \<subseteq> reachable old \<longrightarrow>
         (\<forall>g processed out res.
             migrate_loop P old (rev (map child_key (entries old k)) @ rest) (insert k visited)
               g processed = Some (out, res) \<longrightarrow>
             set out \<subseteq> set processed \<union> reachable old)"
  show "set (k # rest) \<subseteq> reachable old \<longrightarrow>
         (\<forall>g processed out res. migrate_loop P old (k # rest) visited g processed = Some (out, res) \<longrightarrow>
            set out \<subseteq> set processed \<union> reachable old)"
  proof (intro impI allI)
    fix g processed out res
    assume "set (k # rest) \<subseteq> reachable old"
      and run: "migrate_loop P old (k # rest) visited g processed = Some (out, res)"
    then have kr: "k \<in> reachable old" and rr: "set rest \<subseteq> reachable old" by simp_all
    note next_sub = ih [rule_format, OF stack_reachable [OF kr rr]]
    show "set out \<subseteq> set processed \<union> reachable old"
    proof (cases "add_tuples P k (entries old k) g rest")
      case (Inl err)
      with k run have "out = processed @ [k]"
        by (simp add: migrate_loop.simps [of _ _ "k # rest"])
      with kr show ?thesis by auto
    next
      case (Inr r)
      obtain g' stack' where r: "r = (g', stack')" by (cases r)
      from add_tuples_stack [OF Inr [unfolded r]]
      have stack': "stack' = rev (map child_key (entries old k)) @ rest" .
      from k run Inr r have
        "migrate_loop P old (rev (map child_key (entries old k)) @ rest) (insert k visited)
           g' (processed @ [k]) = Some (out, res)"
        by (simp add: migrate_loop.simps [of _ _ "k # rest"] stack')
      from next_sub [OF this] kr show ?thesis by auto
    qed
  qed
qed

text \<open>
  Claim C10. The migration reads the legacy file only at keys reachable from \<open>ROOT\<close>:
  two files with the same entries at the keys reachable in the first migrate to the same
  result, graph or error, so an entry under another key adds nothing and raises nothing;
  and every key processed is reachable.
\<close>

theorem migrate_graph_ignores_unreachable:
  assumes "\<And>k. k \<in> reachable old_graph \<Longrightarrow> entries other k = entries old_graph k"
  shows "migrate_graph P other = migrate_graph P old_graph \<and>
         (\<forall>processed res. migrate_graph P old_graph = Some (processed, res) \<longrightarrow>
            set processed \<subseteq> reachable old_graph)"
proof
  have root: "set [ROOT] \<subseteq> reachable old_graph" by (simp add: reachable.root)
  from migrate_loop_agree [where stack = "[ROOT]", OF assms, rule_format, OF _ _ root]
  show "migrate_graph P other = migrate_graph P old_graph"
    by (simp add: migrate_graph_def)
  from migrate_loop_reachable [where stack = "[ROOT]" and old = old_graph, rule_format, OF _ root]
  show "\<forall>processed res. migrate_graph P old_graph = Some (processed, res) \<longrightarrow>
            set processed \<subseteq> reachable old_graph"
    by (fastforce simp: migrate_graph_def)
qed


text \<open>The entry of \<open>z==9\<close> in \<open>legacy_chain\<close> is not reachable; with or without it
  the migration gives the same graph, and its version that does not parse raises
  nothing.\<close>

theorem migrate_graph_ignores_unreachable_witness:
  "''z==9'' \<notin> reachable legacy_chain \<and>
   migrate_graph simple_packaging (butlast legacy_chain) =
     migrate_graph simple_packaging legacy_chain \<and>
   map_option (\<lambda>(processed, res). (processed, isl res))
     (migrate_graph simple_packaging legacy_chain) = Some ([ROOT, ''a==1'', ''b==2''], False)"
proof -
  have r: "k \<in> {[], ''a==1'', ''b==2''}" if "k \<in> reachable legacy_chain" for k
    using that
    by (induction rule: reachable.induct)
       (auto simp: entries_def legacy_chain_def child_key_def ROOT_def split: if_splits)
  then have z: "''z==9'' \<notin> reachable legacy_chain" by fastforce
  have "entries (butlast legacy_chain) k = entries legacy_chain k"
    if "k \<in> reachable legacy_chain" for k
    using r [OF that] by (auto simp: entries_def legacy_chain_def)
  from migrate_graph_ignores_unreachable
         [of legacy_chain "butlast legacy_chain" simple_packaging, OF this] z
  show ?thesis
    by (simp add: migrate_loop.simps migrate_simps)
qed


end
